theory Spec2Isabelle
  imports Complex_Main
begin

section \<open>Configuration constants\<close>

text \<open>
  The module-level constants of \<^verbatim>\<open>self_driving_car.py\<close>. Python floats are modelled as
  exact reals, Python integers as \<open>int\<close> (lane indices, which the program only ever
  produces non-negative, as \<open>nat\<close>).
\<close>

definition WIDTH :: int where "WIDTH = 1000"
definition HEIGHT :: int where "HEIGHT = 800"
definition ROAD_WIDTH :: int where "ROAD_WIDTH = 450"
definition LANE_COUNT :: nat where "LANE_COUNT = 3"
definition LANE_WIDTH :: int where "LANE_WIDTH = ROAD_WIDTH div int LANE_COUNT"
definition ROAD_LEFT :: int where "ROAD_LEFT = (WIDTH - ROAD_WIDTH) div 2"

definition LANE_CENTERS :: "int list" where
  "LANE_CENTERS = map (\<lambda>i. ROAD_LEFT + LANE_WIDTH div 2 + int i * LANE_WIDTH) [0..<LANE_COUNT]"

definition CAR_WIDTH :: real where "CAR_WIDTH = 30"
definition CAR_HEIGHT :: real where "CAR_HEIGHT = 50"
definition PLAYER_SPEED_MIN :: real where "PLAYER_SPEED_MIN = 4"
definition PLAYER_SPEED_MAX :: real where "PLAYER_SPEED_MAX = 5"
definition NPC_SPEED_MIN :: real where "NPC_SPEED_MIN = 3"
definition NPC_SPEED_MAX :: real where "NPC_SPEED_MAX = 9 / 2"
definition CHANGE_LANE_DISTANCE :: real where "CHANGE_LANE_DISTANCE = 150"
definition REAR_THREAT_DISTANCE :: real where "REAR_THREAT_DISTANCE = 100"

text \<open>
  \<^verbatim>\<open>LANE_CENTERS[l]\<close>: an index outside the list raises \<^verbatim>\<open>IndexError\<close>, which is the
  value \<open>None\<close> here and in every function that performs the lookup.
\<close>

definition lane_center :: "nat \<Rightarrow> real option" where
  "lane_center l = (if l < length LANE_CENTERS then Some (real_of_int (LANE_CENTERS ! l)) else None)"

section \<open>Data model\<close>

text \<open>
  The result of \<^verbatim>\<open>get_car_in_front\<close> carries a distance that starts as
  \<^verbatim>\<open>float('inf')\<close>.
\<close>

datatype edist = Finite real | PosInf

fun dist_less :: "edist \<Rightarrow> edist \<Rightarrow> bool" where
  "dist_less (Finite a) (Finite b) = (a < b)"
| "dist_less (Finite a) PosInf = True"
| "dist_less PosInf d = False"

text \<open>
  Class \<^verbatim>\<open>Car\<close>. The colour and the sensor rays are drawing data only and are left out.
\<close>

record car =
  x :: real
  y :: real
  lane :: nat
  speed :: real
  is_player :: bool
  target_speed :: real
  changing_lane :: bool
  target_lane :: nat
  change_progress :: real
  collided :: bool
  lane_decision :: string
  last_lane_change_time :: int
  min_lane_change_interval :: int
  stuck_timer :: int

text \<open>\<^verbatim>\<open>Car.__init__\<close>.\<close>

definition Car :: "real \<Rightarrow> real \<Rightarrow> nat \<Rightarrow> real \<Rightarrow> bool \<Rightarrow> car" where
  "Car x0 y0 l s p =
     \<lparr> x = x0, y = y0, lane = l, speed = s, is_player = p,
       target_speed = (if p then PLAYER_SPEED_MAX else s),
       changing_lane = False, target_lane = l, change_progress = 0,
       collided = False, lane_decision = ''Initializing...'',
       last_lane_change_time = 0, min_lane_change_interval = 60, stuck_timer = 0 \<rparr>"

text \<open>
  The variables of \<^verbatim>\<open>main\<close>: the list \<^verbatim>\<open>cars\<close> of vehicle objects, the reference
  \<^verbatim>\<open>player_car\<close> into it (an index of the list), the travelled distance and the frame
  counter. Object identity (\<^verbatim>\<open>car == self\<close>) is equality of list indices.
\<close>

record world =
  cars :: "car list"
  player_car :: nat
  distance :: real
  frame_count :: int

section \<open>Lane queries\<close>

text \<open>\<^verbatim>\<open>Car.get_car_in_front\<close>: one iteration of the loop, then the loop.\<close>

definition front_step :: "car \<Rightarrow> nat \<Rightarrow> nat \<Rightarrow> nat \<times> car \<Rightarrow> nat option \<times> edist \<Rightarrow> nat option \<times> edist" where
  "front_step self i l jc acc =
     (if fst jc = i \<or> is_player (snd jc) then acc
      else if lane (snd jc) = l \<and> y (snd jc) < y self then
        (if dist_less (Finite (y self - y (snd jc))) (snd acc)
         then (Some (fst jc), Finite (y self - y (snd jc)))
         else acc)
      else acc)"

definition get_car_in_front :: "car list \<Rightarrow> nat \<Rightarrow> nat \<Rightarrow> nat option \<times> edist" where
  "get_car_in_front cs i l = fold (front_step (cs ! i) i l) (enumerate 0 cs) (None, PosInf)"

text \<open>\<^verbatim>\<open>Car.is_lane_safe\<close>: three scans, each returning \<^verbatim>\<open>False\<close> at its first hit.\<close>

definition others :: "car list \<Rightarrow> nat \<Rightarrow> (nat \<times> car) list" where
  "others cs i = filter (\<lambda>jc. \<not> (fst jc = i \<or> is_player (snd jc))) (enumerate 0 cs)"

definition is_lane_safe :: "car list \<Rightarrow> nat \<Rightarrow> nat \<Rightarrow> bool" where
  "is_lane_safe cs i l =
     (if list_ex (\<lambda>jc. lane (snd jc) = l \<and> \<bar>y (cs ! i) - y (snd jc)\<bar> < CAR_HEIGHT * (5 / 2)) (others cs i)
      then False
      else if fst (get_car_in_front cs i l) \<noteq> None
              \<and> dist_less (snd (get_car_in_front cs i l)) (Finite CHANGE_LANE_DISTANCE)
      then False
      else if list_ex (\<lambda>jc. lane (snd jc) = l \<and> y (snd jc) > y (cs ! i)
                          \<and> y (snd jc) - y (cs ! i) < REAR_THREAT_DISTANCE
                          \<and> speed (snd jc) > speed (cs ! i)) (others cs i)
      then False
      else True)"

section \<open>The decision engine\<close>

text \<open>Lines 134--137 of \<^verbatim>\<open>Car.autonomous_drive\<close>: the asymmetric speed controller.\<close>

definition adjust_speed :: "car \<Rightarrow> car" where
  "adjust_speed c =
     (if \<bar>speed c - target_speed c\<bar> > 5 / 100
      then c\<lparr>speed := speed c + (if speed c < target_speed c then 2 / 100 else - (1 / 10))\<rparr>
      else c\<lparr>speed := target_speed c\<rparr>)"

text \<open>
  Python's \<^verbatim>\<open>max(xs, key=k)\<close> on a non-empty list: the first element whose key no later
  element exceeds.
\<close>

fun max_key :: "('a \<Rightarrow> edist) \<Rightarrow> 'a \<Rightarrow> 'a list \<Rightarrow> 'a" where
  "max_key k best [] = best"
| "max_key k best (z # zs) = max_key k (if dist_less (k best) (k z) then z else best) zs"

text \<open>Decimal rendering of a number inside an f-string.\<close>

fun str_nat :: "nat \<Rightarrow> string" where
  "str_nat n = (if n < 10 then [char_of (48 + n)]
                else str_nat (n div 10) @ [char_of (48 + n mod 10)])"

declare str_nat.simps [simp del]

definition possible_lanes :: "car \<Rightarrow> nat list" where
  "possible_lanes self =
     (if lane self > 0 then [lane self - 1] else [])
     @ (if lane self < LANE_COUNT - 1 then [lane self + 1] else [])"

definition safe_lanes :: "car list \<Rightarrow> nat \<Rightarrow> nat list" where
  "safe_lanes cs i = filter (is_lane_safe cs i) (possible_lanes (cs ! i))"

definition is_on_cooldown :: "car \<Rightarrow> int \<Rightarrow> bool" where
  "is_on_cooldown self fc = (fc - last_lane_change_time self < min_lane_change_interval self)"

text \<open>Lines 163--170: a safe lane was found.\<close>

definition commit_change :: "car list \<Rightarrow> nat \<Rightarrow> nat \<Rightarrow> car list" where
  "commit_change cs i best_lane =
     cs[i := (cs ! i)\<lparr>lane_decision := ''Changing to Lane '' @ str_nat (best_lane + 1),
                      changing_lane := True,
                      target_lane := best_lane,
                      target_speed := PLAYER_SPEED_MAX,
                      stuck_timer := 0\<rparr>]"

text \<open>Lines 172--180: blocked behind \<open>front_car\<close> with no lane change possible.\<close>

definition brake :: "car list \<Rightarrow> nat \<Rightarrow> nat \<Rightarrow> car list" where
  "brake cs i front_car =
     (if stuck_timer (cs ! i) + 1 > 300
      then cs[i := (cs ! i)\<lparr>stuck_timer := stuck_timer (cs ! i) + 1,
                            lane_decision := ''Stuck! Braking hard.'',
                            target_speed := speed (cs ! front_car) - 1\<rparr>]
      else cs[i := (cs ! i)\<lparr>stuck_timer := stuck_timer (cs ! i) + 1,
                            lane_decision := ''Slowing: No safe lane'',
                            target_speed := speed (cs ! front_car) - 1 / 10\<rparr>])"

text \<open>Lines 142--147: the committed target lane is no longer safe.\<close>

definition abort_change :: "car list \<Rightarrow> nat \<Rightarrow> car list" where
  "abort_change cs i =
     cs[i := (cs ! i)\<lparr>lane_decision := ''Target Unsafe! Aborting.'',
                      changing_lane := False,
                      stuck_timer := 0\<rparr>]"

text \<open>Lines 153--180: the body of the "blocked" branch, behind vehicle \<open>front_car\<close>.\<close>

definition blocked_state :: "car list \<Rightarrow> nat \<Rightarrow> int \<Rightarrow> nat \<Rightarrow> car list" where
  "blocked_state cs i fc front_car =
     (if \<not> is_on_cooldown (cs ! i) fc
      then (case safe_lanes cs i of
              [] \<Rightarrow> brake cs i front_car
            | z # zs \<Rightarrow> commit_change cs i (max_key (\<lambda>l. snd (get_car_in_front cs i l)) z zs))
      else brake cs i front_car)"

text \<open>Lines 183--187: the "clear" branch.\<close>

definition clear_state :: "car list \<Rightarrow> nat \<Rightarrow> car list" where
  "clear_state cs i =
     (if \<not> changing_lane (cs ! i)
      then cs[i := (cs ! i)\<lparr>lane_decision := ''Road clear'',
                            target_speed := PLAYER_SPEED_MAX,
                            stuck_timer := 0\<rparr>]
      else cs)"

text \<open>
  \<^verbatim>\<open>Car.autonomous_drive\<close> for the vehicle at index \<open>i\<close>. The method mutates only
  \<^verbatim>\<open>self\<close>; the list with that one entry replaced is returned.
\<close>

definition autonomous_drive :: "car list \<Rightarrow> nat \<Rightarrow> int \<Rightarrow> car list" where
  "autonomous_drive cs0 i fc =
     (let cs = cs0[i := adjust_speed (cs0 ! i)] in
      if changing_lane (cs ! i) \<and> \<not> is_lane_safe cs i (target_lane (cs ! i))
      then abort_change cs i
      else
        (case get_car_in_front cs i (lane (cs ! i)) of
           (None, front_dist) \<Rightarrow> clear_state cs i
         | (Some front_car, front_dist) \<Rightarrow>
             if \<not> changing_lane (cs ! i) \<and> dist_less front_dist (Finite CHANGE_LANE_DISTANCE)
             then blocked_state cs i fc front_car
             else clear_state cs i))"

section \<open>Motion\<close>

text \<open>
  Lines 104--111 of \<^verbatim>\<open>Car.move\<close>: a non-player vehicle moves relative to the agent and is
  recycled once it has scrolled off the bottom. The draws of \<^verbatim>\<open>random.randint\<close> and
  \<^verbatim>\<open>random.uniform\<close> for this vehicle on this tick are the pair \<open>r\<close>.
\<close>

definition relative_motion :: "nat \<times> real \<Rightarrow> real \<Rightarrow> car \<Rightarrow> car option" where
  "relative_motion r player_speed c =
     (let c1 = c\<lparr>y := y c + (player_speed - speed c)\<rparr> in
      if y c1 > real_of_int HEIGHT + CAR_HEIGHT * 2 then
        (case lane_center (fst r) of
           None \<Rightarrow> None
         | Some cx \<Rightarrow> Some (c1\<lparr>y := - CAR_HEIGHT * 5, lane := fst r, x := cx, speed := snd r\<rparr>))
      else Some c1)"

text \<open>Lines 113--129 of \<^verbatim>\<open>Car.move\<close>: lane-change interpolation or centring.\<close>

definition lateral :: "int \<Rightarrow> car \<Rightarrow> car option" where
  "lateral fc c =
     (if changing_lane c then
        (let c1 = c\<lparr>change_progress := change_progress c + 5 / 100\<rparr> in
         case lane_center (lane c1) of
           None \<Rightarrow> None
         | Some start_x \<Rightarrow>
           (case lane_center (target_lane c1) of
              None \<Rightarrow> None
            | Some end_x \<Rightarrow>
               (let c2 = c1\<lparr>x := start_x + (end_x - start_x) * change_progress c1\<rparr> in
                if change_progress c2 \<ge> 1 then
                  (let c3 = c2\<lparr>lane := target_lane c2\<rparr> in
                   case lane_center (lane c3) of
                     None \<Rightarrow> None
                   | Some cx \<Rightarrow>
                       Some (c3\<lparr>x := cx, changing_lane := False,
                                change_progress := 0, last_lane_change_time := fc\<rparr>))
                else Some c2)))
      else
        (case lane_center (lane c) of
           None \<Rightarrow> None
         | Some target_x \<Rightarrow> Some (c\<lparr>x := x c + (target_x - x c) * (1 / 10)\<rparr>)))"

text \<open>
  \<^verbatim>\<open>Car.move\<close> for the vehicle at index \<open>i\<close>; \<open>p\<close> is the index of \<^verbatim>\<open>player_car\<close>, whose
  current speed is read from the list as it stands when this vehicle moves.
\<close>

definition move :: "(nat \<Rightarrow> nat \<times> real) \<Rightarrow> car list \<Rightarrow> int \<Rightarrow> nat \<Rightarrow> nat \<Rightarrow> car list option" where
  "move rnd cs0 fc p i =
     (if collided (cs0 ! i) then Some cs0
      else
        (let cs1 = (if is_player (cs0 ! i) then autonomous_drive cs0 i fc else cs0) in
         case (if \<not> is_player (cs1 ! i)
               then relative_motion (rnd i) (speed (cs1 ! p)) (cs1 ! i)
               else Some (cs1 ! i)) of
           None \<Rightarrow> None
         | Some c2 \<Rightarrow>
            (case lateral fc c2 of
               None \<Rightarrow> None
             | Some c3 \<Rightarrow> Some (cs1[i := c3]))))"

text \<open>The loop \<^verbatim>\<open>for car in cars: car.move(cars, frame_count, player_car)\<close>.\<close>

fun move_loop :: "(nat \<Rightarrow> nat \<times> real) \<Rightarrow> int \<Rightarrow> nat \<Rightarrow> car list \<Rightarrow> nat list \<Rightarrow> car list option" where
  "move_loop rnd fc p cs [] = Some cs"
| "move_loop rnd fc p cs (i # is) =
     (case move rnd cs fc p i of
        None \<Rightarrow> None
      | Some cs' \<Rightarrow> move_loop rnd fc p cs' is)"

definition move_all :: "(nat \<Rightarrow> nat \<times> real) \<Rightarrow> int \<Rightarrow> nat \<Rightarrow> car list \<Rightarrow> car list option" where
  "move_all rnd fc p cs = move_loop rnd fc p cs [0..<length cs]"

section \<open>Collision check\<close>

record rect =
  left :: real
  top :: real
  width :: real
  height :: real

text \<open>The rectangle built for a vehicle in \<^verbatim>\<open>update_sensors_and_check_collision\<close>.\<close>

definition car_rect :: "car \<Rightarrow> rect" where
  "car_rect c = \<lparr> left = x c - CAR_WIDTH / 2, top = y c - CAR_HEIGHT / 2,
                  width = CAR_WIDTH, height = CAR_HEIGHT \<rparr>"

text \<open>
  Modelled from the spec: \<^verbatim>\<open>Rect.colliderect\<close> belongs to the pygame library, which is
  not part of the sources. The spec describes it as the standard 2D interval overlap on
  both axes. The functions below take the overlap test as the parameter \<open>ov\<close>; this
  definition is the instance used where a concrete test is evaluated.
\<close>

definition colliderect :: "rect \<Rightarrow> rect \<Rightarrow> bool" where
  "colliderect a b =
     (left a < left b + width b \<and> left b < left a + width a
      \<and> top a < top b + height b \<and> top b < top a + height a)"

text \<open>
  \<^verbatim>\<open>Car.update_sensors_and_check_collision\<close> for the vehicle at index \<open>i\<close>: the scan stops
  at the first other vehicle whose rectangle overlaps.
\<close>

definition update_sensors_and_check_collision ::
    "(rect \<Rightarrow> rect \<Rightarrow> bool) \<Rightarrow> car list \<Rightarrow> nat \<Rightarrow> car list" where
  "update_sensors_and_check_collision ov cs i =
     (if collided (cs ! i) then cs
      else
        (case find (\<lambda>jc. fst jc \<noteq> i \<and> ov (car_rect (cs ! i)) (car_rect (snd jc))) (enumerate 0 cs) of
           None \<Rightarrow> cs
         | Some jc \<Rightarrow>
             cs[i := (cs ! i)\<lparr>collided := True, lane_decision := ''CRASHED!''\<rparr>,
                fst jc := (snd jc)\<lparr>collided := True\<rparr>]))"

section \<open>One tick\<close>

text \<open>
  Lines 310--313 of \<^verbatim>\<open>main\<close>: every vehicle moves, in list order, then the collision
  check runs on the agent.
\<close>

definition step :: "(rect \<Rightarrow> rect \<Rightarrow> bool) \<Rightarrow> (nat \<Rightarrow> nat \<times> real) \<Rightarrow> world \<Rightarrow> world option" where
  "step ov rnd w =
     (case move_all rnd (frame_count w) (player_car w) (cars w) of
        None \<Rightarrow> None
      | Some cs \<Rightarrow> Some (w\<lparr>cars := update_sensors_and_check_collision ov cs (player_car w)\<rparr>))"

text \<open>
  \<^verbatim>\<open>reset_simulation\<close>: the agent first, then twelve non-player vehicles from the draws
  \<open>d k = (lane, y_pos, speed)\<close>.
\<close>

fun spawn :: "(nat \<Rightarrow> nat \<times> int \<times> real) \<Rightarrow> nat list \<Rightarrow> car list option" where
  "spawn d [] = Some []"
| "spawn d (k # ks) =
     (case lane_center (fst (d k)) of
        None \<Rightarrow> None
      | Some x_pos \<Rightarrow>
         (case spawn d ks of
            None \<Rightarrow> None
          | Some cs \<Rightarrow>
              Some (Car x_pos (real_of_int (fst (snd (d k)))) (fst (d k)) (snd (snd (d k))) False # cs)))"

definition reset_simulation :: "(nat \<Rightarrow> nat \<times> int \<times> real) \<Rightarrow> world option" where
  "reset_simulation d =
     (case lane_center 1 of
        None \<Rightarrow> None
      | Some cx \<Rightarrow>
         (case spawn d [0..<12] of
            None \<Rightarrow> None
          | Some npcs \<Rightarrow>
              Some \<lparr> cars = Car cx (real_of_int HEIGHT - 100) 1 PLAYER_SPEED_MIN True # npcs,
                     player_car = 0, distance = 0, frame_count = 0 \<rparr>))"

text \<open>
  The body of the \<^verbatim>\<open>while\<close> loop of \<^verbatim>\<open>main\<close>, without event handling and drawing.
  \<open>tick\<close> is the path taken while the agent has not crashed: the frame counter and
  the travelled distance advance, then the step runs. \<open>main_loop_body\<close> adds the other
  path: a crashed agent restarts the simulation.
\<close>

definition tick :: "(rect \<Rightarrow> rect \<Rightarrow> bool) \<Rightarrow> (nat \<Rightarrow> nat \<times> real) \<Rightarrow> world \<Rightarrow> world option" where
  "tick ov rnd w =
     step ov rnd (w\<lparr>frame_count := frame_count w + 1,
                   distance := distance w + speed (cars w ! player_car w)\<rparr>)"

definition main_loop_body ::
    "(rect \<Rightarrow> rect \<Rightarrow> bool) \<Rightarrow> (nat \<Rightarrow> nat \<times> real) \<Rightarrow> (nat \<Rightarrow> nat \<times> int \<times> real) \<Rightarrow> world \<Rightarrow> world option" where
  "main_loop_body ov rnd d w =
     (if collided (cars w ! player_car w) then reset_simulation d else tick ov rnd w)"

text \<open>Consecutive ticks, one family of random draws per tick.\<close>

fun run :: "(rect \<Rightarrow> rect \<Rightarrow> bool) \<Rightarrow> (nat \<Rightarrow> nat \<times> real) list \<Rightarrow> world \<Rightarrow> world option" where
  "run ov [] w = Some w"
| "run ov (r # rs) w = (case tick ov r w of None \<Rightarrow> None | Some w1 \<Rightarrow> run ov rs w1)"

section \<open>Predicates used in the statements\<close>

text \<open>Vehicle \<open>j\<close> is a non-agent vehicle other than \<open>i\<close>, in lane \<open>l\<close>, strictly ahead of \<open>i\<close> (smaller longitudinal coordinate).\<close>

definition ahead :: "car list \<Rightarrow> nat \<Rightarrow> nat \<Rightarrow> nat \<Rightarrow> bool" where
  "ahead cs i l j = (j < length cs \<and> j \<noteq> i \<and> \<not> is_player (cs ! j) \<and> lane (cs ! j) = l \<and> y (cs ! j) < y (cs ! i))"

text \<open>The indices of the non-agent vehicles other than \<open>i\<close> that occupy lane \<open>l\<close>.\<close>

definition candidates :: "car list \<Rightarrow> nat \<Rightarrow> nat \<Rightarrow> nat list" where
  "candidates cs i l = filter (\<lambda>j. j \<noteq> i \<and> \<not> is_player (cs ! j) \<and> lane (cs ! j) = l) [0..<length cs]"

text \<open>Vehicle \<open>j\<close> is a nearest non-agent vehicle ahead of \<open>i\<close> in lane \<open>l\<close>.\<close>

definition nearest_ahead :: "car list \<Rightarrow> nat \<Rightarrow> nat \<Rightarrow> nat \<Rightarrow> bool" where
  "nearest_ahead cs i l j =
     (j \<in> set (candidates cs i l) \<and> y (cs ! j) < y (cs ! i)
      \<and> (\<forall>k \<in> set (candidates cs i l).
            y (cs ! k) < y (cs ! i) \<longrightarrow> y (cs ! i) - y (cs ! j) \<le> y (cs ! i) - y (cs ! k)))"

text \<open>A small traffic situation: the agent in lane 1, a slower vehicle 100 ahead of it, and a vehicle 300 ahead in lane 0.\<close>

definition demo_cars :: "car list" where
  "demo_cars = [Car 500 700 1 4 True, Car 500 600 1 3 False, Car 350 400 0 3 False]"

text \<open>The fields that no motion or decision code assigns.\<close>

definition same_body :: "car \<Rightarrow> car \<Rightarrow> bool" where
  "same_body c c' = (collided c' = collided c \<and> is_player c' = is_player c
      \<and> min_lane_change_interval c' = min_lane_change_interval c)"

text \<open>Vehicle \<open>j\<close> is another vehicle whose rectangle overlaps that of vehicle \<open>i\<close>.\<close>

definition overlaps :: "(rect \<Rightarrow> rect \<Rightarrow> bool) \<Rightarrow> car list \<Rightarrow> nat \<Rightarrow> nat \<Rightarrow> bool" where
  "overlaps ov cs i j = (j < length cs \<and> j \<noteq> i \<and> ov (car_rect (cs ! i)) (car_rect (cs ! j)))"

text \<open>Vehicle \<open>j\<close> is the first vehicle in list order that overlaps vehicle \<open>i\<close>.\<close>

definition first_overlap :: "(rect \<Rightarrow> rect \<Rightarrow> bool) \<Rightarrow> car list \<Rightarrow> nat \<Rightarrow> nat \<Rightarrow> bool" where
  "first_overlap ov cs i j = (overlaps ov cs i j \<and> (\<forall>k < j. \<not> overlaps ov cs i k))"

text \<open>Random draws that are never consulted in the examples (no vehicle is recycled).\<close>

definition no_draws :: "nat \<Rightarrow> nat \<times> real" where
  "no_draws i = (0, 3)"

text \<open>
  The agent between two vehicles of its own lane, exactly one vehicle length (50) behind the
  one ahead and ahead of the one behind: the rectangles touch and do not overlap yet.
\<close>

definition pileup :: world where
  "pileup = \<lparr> cars = [Car 500 700 1 4 True,
                      Car 500 650 1 3 False,
                      Car 500 750 1 (9 / 2) False],
              player_car = 0, distance = 0, frame_count = 10 \<rparr>"

text \<open>The state one step after \<open>pileup\<close>.\<close>

definition pileup_after :: world where
  "pileup_after =
     \<lparr> cars = [(Car 500 700 1 (201 / 50) True)
                   \<lparr>target_speed := 29 / 10, collided := True, lane_decision := ''CRASHED!'',
                    stuck_timer := 1\<rparr>,
                (Car 500 (32551 / 50) 1 3 False)\<lparr>collided := True\<rparr>,
                Car 500 (18738 / 25) 1 (9 / 2) False],
       player_car = 0, distance = 0, frame_count = 10 \<rparr>"

text \<open>The state one tick after \<open>pileup_after\<close>: only the unmarked vehicle has moved.\<close>

definition pileup_later :: world where
  "pileup_later =
     pileup_after\<lparr>cars := (cars pileup_after)[2 := Car 500 (18726 / 25) 1 (9 / 2) False],
                  distance := 201 / 50, frame_count := 11\<rparr>"

text \<open>The state after a crash: the agent and the vehicle it hit are both frozen.\<close>

definition crashed :: world where
  "crashed = \<lparr> cars = [(Car 500 700 1 4 True)\<lparr>collided := True, lane_decision := ''CRASHED!''\<rparr>,
                       (Car 500 660 1 3 False)\<lparr>collided := True\<rparr>],
               player_car = 0, distance = 0, frame_count = 10 \<rparr>"

text \<open>
  Vehicle \<open>i\<close> is blocked behind vehicle \<open>f\<close>: it is not changing lane, and its nearest-ahead
  query in its own lane returns \<open>f\<close> at a distance below \<open>CHANGE_LANE_DISTANCE\<close>.
\<close>

definition blocked_by :: "car list \<Rightarrow> nat \<Rightarrow> nat \<Rightarrow> bool" where
  "blocked_by cs i f =
     (\<not> changing_lane (cs ! i)
      \<and> fst (get_car_in_front cs i (lane (cs ! i))) = Some f
      \<and> dist_less (snd (get_car_in_front cs i (lane (cs ! i)))) (Finite CHANGE_LANE_DISTANCE))"

text \<open>The distance of the nearest vehicle ahead of \<open>i\<close> in lane \<open>l\<close>, infinite when there is none.\<close>

definition ahead_dist :: "car list \<Rightarrow> nat \<Rightarrow> nat \<Rightarrow> edist" where
  "ahead_dist cs i l = snd (get_car_in_front cs i l)"

text \<open>
  Lane \<open>l\<close> is a lane next to that of vehicle \<open>i\<close> (one below, or one above and inside the
  road) that the lane safety evaluator accepts.
\<close>

definition safe_adjacent :: "car list \<Rightarrow> nat \<Rightarrow> nat \<Rightarrow> bool" where
  "safe_adjacent cs i l =
     ((l + 1 = lane (cs ! i) \<or> (l = lane (cs ! i) + 1 \<and> l < LANE_COUNT)) \<and> is_lane_safe cs i l)"





text \<open>The blocked vehicle \<open>i\<close> cannot initiate a lane change at frame \<open>fc\<close>.\<close>

definition cannot_change :: "car list \<Rightarrow> nat \<Rightarrow> int \<Rightarrow> bool" where
  "cannot_change cs i fc = (is_on_cooldown (cs ! i) fc \<or> safe_lanes cs i = [])"


text \<open>
  The order of a step as the specification words it, for comparison with \<open>step\<close>: the
  motion update of the non-player vehicles first, then the agent, then the collision check.
\<close>

definition step_spec_order :: "(rect \<Rightarrow> rect \<Rightarrow> bool) \<Rightarrow> (nat \<Rightarrow> nat \<times> real) \<Rightarrow> world \<Rightarrow> world option" where
  "step_spec_order ov rnd w =
     (case move_loop rnd (frame_count w) (player_car w) (cars w)
             (filter (\<lambda>j. j \<noteq> player_car w) [0..<length (cars w)] @ [player_car w]) of
        None \<Rightarrow> None
      | Some cs \<Rightarrow> Some (w\<lparr>cars := update_sensors_and_check_collision ov cs (player_car w)\<rparr>))"

text \<open>
  The agent at full speed, 150.5 behind a slower vehicle of its lane, on cooldown; the state
  one step later; and the state that the specification's order would give.
\<close>

definition gap :: world where
  "gap = \<lparr> cars = [Car 500 700 1 5 True, Car 500 (1099 / 2) 1 3 False],
           player_car = 0, distance = 0, frame_count = 10 \<rparr>"

definition gap_after :: world where
  "gap_after = \<lparr> cars = [(Car 500 700 1 5 True)\<lparr>lane_decision := ''Road clear''\<rparr>,
                         Car 500 (1103 / 2) 1 3 False],
                 player_car = 0, distance = 0, frame_count = 10 \<rparr>"

definition gap_spec_order :: world where
  "gap_spec_order =
     \<lparr> cars = [(Car 500 700 1 5 True)
                  \<lparr>lane_decision := ''Slowing: No safe lane'', target_speed := 29 / 10,
                   stuck_timer := 1\<rparr>,
                Car 500 (1103 / 2) 1 3 False],
       player_car = 0, distance = 0, frame_count = 10 \<rparr>"

text \<open>
  The agent blocked behind a slower vehicle, off cooldown, with a faster vehicle 125.2
  behind it in lane 0; and the state two ticks later.
\<close>

definition merge_start :: world where
  "merge_start = \<lparr> cars = [Car 500 700 1 4 True, Car 500 600 1 3 False,
                           Car 350 (4126 / 5) 0 (9 / 2) False],
                   player_car = 0, distance = 0, frame_count = 100 \<rparr>"

definition merge_aborted :: world where
  "merge_aborted =
     \<lparr> cars = [(Car (1973 / 4) 700 1 (101 / 25) True)
                  \<lparr>target_lane := 0, change_progress := 1 / 20,
                   lane_decision := ''Target Unsafe! Aborting.''\<rparr>,
                Car 500 (30103 / 50) 1 3 False,
                Car 350 (41213 / 50) 0 (9 / 2) False],
       player_car = 0, distance = 401 / 50, frame_count = 102 \<rparr>"

text \<open>The draws of \<^verbatim>\<open>random.randint(0, LANE_COUNT - 1)\<close> are lane indices.\<close>

definition rnd_ok :: "(nat \<Rightarrow> nat \<times> real) \<Rightarrow> bool" where
  "rnd_ok rnd = (\<forall>i. fst (rnd i) < LANE_COUNT)"

text \<open>
  The lanes of a vehicle are on the road, its cooldown interval is the one \<open>Car\<close> sets,
  its lane-change progress is at least 0 and below 1, and its \<open>stuck_timer\<close> is 0 while it
  changes lane.
\<close>

definition car_ok :: "car \<Rightarrow> bool" where
  "car_ok c = (lane c < LANE_COUNT \<and> target_lane c < LANE_COUNT \<and> min_lane_change_interval c = 60
               \<and> 0 \<le> change_progress c \<and> change_progress c < 1
               \<and> (changing_lane c \<longrightarrow> stuck_timer c = 0))"

text \<open>
  The shape of every state of a simulation: the agent is the first vehicle of the list and
  the only one flagged as player, and every vehicle satisfies \<open>car_ok\<close>.
\<close>

definition world_inv :: "world \<Rightarrow> bool" where
  "world_inv w =
     (player_car w = 0 \<and> cars w \<noteq> []
      \<and> (\<forall>k < length (cars w). is_player (cars w ! k) = (k = 0) \<and> car_ok (cars w ! k)))"

text \<open>The states of a simulation: those that \<open>main\<close> can reach from \<open>reset_simulation\<close>.\<close>

inductive reachable :: "(rect \<Rightarrow> rect \<Rightarrow> bool) \<Rightarrow> world \<Rightarrow> bool" for ov where
  start: "\<forall>k < 12. fst (d k) < LANE_COUNT \<Longrightarrow> reset_simulation d = Some w \<Longrightarrow> reachable ov w"
| loop: "reachable ov w \<Longrightarrow> rnd_ok rnd \<Longrightarrow> \<forall>k < 12. fst (d k) < LANE_COUNT
         \<Longrightarrow> main_loop_body ov rnd d w = Some w' \<Longrightarrow> reachable ov w'"

section \<open>Properties of the lane queries\<close>

lemma dist_less_Finite_iff: "dist_less d (Finite b) = (\<exists>a. d = Finite a \<and> a < b)"
  by (cases d) auto

lemma dist_less_Finite_left: "dist_less (Finite a) d = (d = PosInf \<or> (\<exists>b. d = Finite b \<and> a < b))"
  by (cases d) auto

lemma fold_front_none:
  "\<forall>jc \<in> set ps. fst jc = i \<or> is_player (snd jc) \<or> lane (snd jc) \<noteq> l \<or> \<not> y (snd jc) < y self
   \<Longrightarrow> fold (front_step self i l) ps acc = acc"
  by (induction ps arbitrary: acc) (auto simp: front_step_def)

lemma fold_front_cases:
  "fold (front_step self i l) ps acc = acc
   \<or> (\<exists>jc \<in> set ps. fst jc \<noteq> i \<and> \<not> is_player (snd jc) \<and> lane (snd jc) = l \<and> y (snd jc) < y self
        \<and> fold (front_step self i l) ps acc = (Some (fst jc), Finite (y self - y (snd jc))))"
proof (induction ps arbitrary: acc)
  case Nil
  then show ?case by simp
next
  case (Cons a ps)
  show ?case
    using Cons.IH [of "front_step self i l a acc"]
    by (auto simp: front_step_def split: if_splits)
qed

lemma dist_not_less_trans:
  "\<not> dist_less a b \<Longrightarrow> \<not> dist_less b c \<Longrightarrow> \<not> dist_less a c"
  by (cases a; cases b; cases c) auto

lemma dist_not_less_refl: "\<not> dist_less a a"
  by (cases a) auto

lemma front_step_le_acc: "\<not> dist_less (snd acc) (snd (front_step self i l a acc))"
  by (cases "snd acc") (auto simp: front_step_def)

lemma fold_front_le_acc:
  "\<not> dist_less (snd acc) (snd (fold (front_step self i l) ps acc))"
proof (induction ps arbitrary: acc)
  case Nil
  then show ?case by (simp add: dist_not_less_refl)
next
  case (Cons a ps)
  have "\<not> dist_less (snd (front_step self i l a acc))
            (snd (fold (front_step self i l) ps (front_step self i l a acc)))"
    by (rule Cons.IH)
  with front_step_le_acc [of acc self i l a] show ?case
    by (simp add: dist_not_less_trans [of "snd acc" "snd (front_step self i l a acc)"])
qed

lemma front_step_le_new:
  "fst a \<noteq> i \<Longrightarrow> \<not> is_player (snd a) \<Longrightarrow> lane (snd a) = l \<Longrightarrow> y (snd a) < y self
   \<Longrightarrow> \<not> dist_less (Finite (y self - y (snd a))) (snd (front_step self i l a acc))"
  by (cases "snd acc") (auto simp: front_step_def)

lemma fold_front_min:
  "jc \<in> set ps \<Longrightarrow> fst jc \<noteq> i \<Longrightarrow> \<not> is_player (snd jc) \<Longrightarrow> lane (snd jc) = l \<Longrightarrow> y (snd jc) < y self
   \<Longrightarrow> \<not> dist_less (Finite (y self - y (snd jc))) (snd (fold (front_step self i l) ps acc))"
proof (induction ps arbitrary: acc)
  case Nil
  then show ?case by simp
next
  case (Cons a ps)
  show ?case
  proof (cases "jc = a")
    case True
    have "\<not> dist_less (snd (front_step self i l a acc)) (snd (fold (front_step self i l) ps (front_step self i l a acc)))"
      by (rule fold_front_le_acc)
    moreover have "\<not> dist_less (Finite (y self - y (snd jc))) (snd (front_step self i l a acc))"
      using True Cons.prems by (simp add: front_step_le_new)
    ultimately show ?thesis
      by (simp add: dist_not_less_trans [of "Finite (y self - y (snd jc))" "snd (front_step self i l a acc)"])
  next
    case False
    then have "jc \<in> set ps" using Cons.prems by simp
    then show ?thesis using Cons.IH Cons.prems by simp
  qed
qed

lemma get_car_in_front_none:
  "(\<forall>j. \<not> ahead cs i l j) \<Longrightarrow> get_car_in_front cs i l = (None, PosInf)"
  unfolding get_car_in_front_def
  by (rule fold_front_none) (auto simp: ahead_def in_set_enumerate_eq)

lemma get_car_in_front_some:
  assumes "ahead cs i l k"
  shows "\<exists>j. ahead cs i l j \<and> get_car_in_front cs i l = (Some j, Finite (y (cs ! i) - y (cs ! j)))
             \<and> y (cs ! i) - y (cs ! j) \<le> y (cs ! i) - y (cs ! k)"
proof -
  let ?r = "get_car_in_front cs i l"
  have kin: "(k, cs ! k) \<in> set (enumerate 0 cs)"
    using assms by (simp add: ahead_def in_set_enumerate_eq)
  have m: "\<not> dist_less (Finite (y (cs ! i) - y (cs ! k))) (snd ?r)"
    unfolding get_car_in_front_def
    using fold_front_min [OF kin, of i l "cs ! i" "(None, PosInf)"] assms
    by (simp add: ahead_def)
  then have ne: "?r \<noteq> (None, PosInf)" by auto
  from fold_front_cases [of "cs ! i" i l "enumerate 0 cs" "(None, PosInf)"] ne
  obtain jc where jc: "jc \<in> set (enumerate 0 cs)" "fst jc \<noteq> i" "\<not> is_player (snd jc)"
      "lane (snd jc) = l" "y (snd jc) < y (cs ! i)"
      "?r = (Some (fst jc), Finite (y (cs ! i) - y (snd jc)))"
    unfolding get_car_in_front_def by blast
  from jc(1) have j: "fst jc < length cs" "snd jc = cs ! fst jc"
    by (auto simp: in_set_enumerate_eq)
  have "ahead cs i l (fst jc)" using jc j by (simp add: ahead_def)
  moreover have "?r = (Some (fst jc), Finite (y (cs ! i) - y (cs ! fst jc)))"
    using jc(6) j by simp
  moreover have "y (cs ! i) - y (cs ! fst jc) \<le> y (cs ! i) - y (cs ! k)"
    using m jc(6) j by simp
  ultimately show ?thesis by blast
qed

lemma ahead_candidates: "ahead cs i l j = (j \<in> set (candidates cs i l) \<and> y (cs ! j) < y (cs ! i))"
  by (auto simp: ahead_def candidates_def)

lemma others_iff:
  "jc \<in> set (others cs i) = (fst jc < length cs \<and> snd jc = cs ! fst jc \<and> fst jc \<noteq> i \<and> \<not> is_player (cs ! fst jc))"
  by (auto simp: others_def in_set_enumerate_eq)

lemma blind_spot_iff:
  "list_ex (\<lambda>jc. lane (snd jc) = l \<and> \<bar>y (cs ! i) - y (snd jc)\<bar> < CAR_HEIGHT * (5 / 2)) (others cs i)
   = (\<exists>j \<in> set (candidates cs i l). \<bar>y (cs ! i) - y (cs ! j)\<bar> < 125)"
  unfolding list_ex_iff
proof
  assume "\<exists>jc \<in> set (others cs i). lane (snd jc) = l \<and> \<bar>y (cs ! i) - y (snd jc)\<bar> < CAR_HEIGHT * (5 / 2)"
  then obtain jc where "jc \<in> set (others cs i)" "lane (snd jc) = l"
      "\<bar>y (cs ! i) - y (snd jc)\<bar> < CAR_HEIGHT * (5 / 2)" by blast
  then have "fst jc \<in> set (candidates cs i l) \<and> \<bar>y (cs ! i) - y (cs ! fst jc)\<bar> < 125"
    by (simp add: others_iff candidates_def CAR_HEIGHT_def)
  then show "\<exists>j \<in> set (candidates cs i l). \<bar>y (cs ! i) - y (cs ! j)\<bar> < 125" by blast
next
  assume "\<exists>j \<in> set (candidates cs i l). \<bar>y (cs ! i) - y (cs ! j)\<bar> < 125"
  then obtain j where "j \<in> set (candidates cs i l)" "\<bar>y (cs ! i) - y (cs ! j)\<bar> < 125" by blast
  then have "(j, cs ! j) \<in> set (others cs i) \<and> lane (snd (j, cs ! j)) = l
             \<and> \<bar>y (cs ! i) - y (snd (j, cs ! j))\<bar> < CAR_HEIGHT * (5 / 2)"
    by (simp add: others_iff candidates_def CAR_HEIGHT_def)
  then show "\<exists>jc \<in> set (others cs i). lane (snd jc) = l \<and> \<bar>y (cs ! i) - y (snd jc)\<bar> < CAR_HEIGHT * (5 / 2)"
    by blast
qed

lemma rear_threat_iff:
  "list_ex (\<lambda>jc. lane (snd jc) = l \<and> y (snd jc) > y (cs ! i)
                  \<and> y (snd jc) - y (cs ! i) < REAR_THREAT_DISTANCE
                  \<and> speed (snd jc) > speed (cs ! i)) (others cs i)
   = (\<exists>j \<in> set (candidates cs i l). y (cs ! i) < y (cs ! j) \<and> y (cs ! j) - y (cs ! i) < 100
         \<and> speed (cs ! i) < speed (cs ! j))"
  unfolding list_ex_iff
proof
  assume "\<exists>jc \<in> set (others cs i). lane (snd jc) = l \<and> y (snd jc) > y (cs ! i)
                  \<and> y (snd jc) - y (cs ! i) < REAR_THREAT_DISTANCE
                  \<and> speed (snd jc) > speed (cs ! i)"
  then obtain jc where "jc \<in> set (others cs i)" "lane (snd jc) = l" "y (snd jc) > y (cs ! i)"
      "y (snd jc) - y (cs ! i) < REAR_THREAT_DISTANCE" "speed (snd jc) > speed (cs ! i)" by blast
  then have "fst jc \<in> set (candidates cs i l) \<and> y (cs ! i) < y (cs ! fst jc)
             \<and> y (cs ! fst jc) - y (cs ! i) < 100 \<and> speed (cs ! i) < speed (cs ! fst jc)"
    by (simp add: others_iff candidates_def REAR_THREAT_DISTANCE_def)
  then show "\<exists>j \<in> set (candidates cs i l). y (cs ! i) < y (cs ! j) \<and> y (cs ! j) - y (cs ! i) < 100
         \<and> speed (cs ! i) < speed (cs ! j)" by blast
next
  assume "\<exists>j \<in> set (candidates cs i l). y (cs ! i) < y (cs ! j) \<and> y (cs ! j) - y (cs ! i) < 100
         \<and> speed (cs ! i) < speed (cs ! j)"
  then obtain j where "j \<in> set (candidates cs i l)" "y (cs ! i) < y (cs ! j)"
      "y (cs ! j) - y (cs ! i) < 100" "speed (cs ! i) < speed (cs ! j)" by blast
  then have "(j, cs ! j) \<in> set (others cs i) \<and> lane (snd (j, cs ! j)) = l
       \<and> y (snd (j, cs ! j)) > y (cs ! i)
       \<and> y (snd (j, cs ! j)) - y (cs ! i) < REAR_THREAT_DISTANCE
       \<and> speed (snd (j, cs ! j)) > speed (cs ! i)"
    by (simp add: others_iff candidates_def REAR_THREAT_DISTANCE_def)
  then show "\<exists>jc \<in> set (others cs i). lane (snd jc) = l \<and> y (snd jc) > y (cs ! i)
                  \<and> y (snd jc) - y (cs ! i) < REAR_THREAT_DISTANCE
                  \<and> speed (snd jc) > speed (cs ! i)" by blast
qed

lemma nearest_ahead_iff:
  "nearest_ahead cs i l j = (ahead cs i l j \<and> (\<forall>k. ahead cs i l k \<longrightarrow> y (cs ! i) - y (cs ! j) \<le> y (cs ! i) - y (cs ! k)))"
  by (auto simp: nearest_ahead_def ahead_candidates)

lemma forward_blocked_iff:
  "(fst (get_car_in_front cs i l) \<noteq> None
      \<and> dist_less (snd (get_car_in_front cs i l)) (Finite CHANGE_LANE_DISTANCE))
   = (\<exists>j. nearest_ahead cs i l j \<and> y (cs ! i) - y (cs ! j) < 150)"
proof (cases "\<exists>k. ahead cs i l k")
  case False
  then have "get_car_in_front cs i l = (None, PosInf)"
    by (simp add: get_car_in_front_none)
  with False show ?thesis by (auto simp: nearest_ahead_iff)
next
  case True
  then obtain k0 where "ahead cs i l k0" by blast
  from get_car_in_front_some [OF this]
  obtain j where j: "ahead cs i l j"
      "get_car_in_front cs i l = (Some j, Finite (y (cs ! i) - y (cs ! j)))" by blast
  have min: "y (cs ! i) - y (cs ! j) \<le> y (cs ! i) - y (cs ! k)" if "ahead cs i l k" for k
    using get_car_in_front_some [OF that] j(2) by auto
  have nj: "nearest_ahead cs i l j"
    using j(1) min by (simp add: nearest_ahead_iff)
  show ?thesis
  proof
    assume "fst (get_car_in_front cs i l) \<noteq> None
      \<and> dist_less (snd (get_car_in_front cs i l)) (Finite CHANGE_LANE_DISTANCE)"
    then have "y (cs ! i) - y (cs ! j) < 150"
      using j(2) by (simp add: CHANGE_LANE_DISTANCE_def)
    with nj show "\<exists>j. nearest_ahead cs i l j \<and> y (cs ! i) - y (cs ! j) < 150" by blast
  next
    assume "\<exists>j. nearest_ahead cs i l j \<and> y (cs ! i) - y (cs ! j) < 150"
    then obtain j' where j': "nearest_ahead cs i l j'" "y (cs ! i) - y (cs ! j') < 150" by blast
    then have "y (cs ! i) - y (cs ! j) \<le> y (cs ! i) - y (cs ! j')"
      using min by (simp add: nearest_ahead_iff)
    with j' show "fst (get_car_in_front cs i l) \<noteq> None
      \<and> dist_less (snd (get_car_in_front cs i l)) (Finite CHANGE_LANE_DISTANCE)"
      using j(2) by (simp add: CHANGE_LANE_DISTANCE_def)
  qed
qed

lemma lane_safe_char:
  "is_lane_safe cs i l =
     ((\<forall>j \<in> set (candidates cs i l). 125 \<le> \<bar>y (cs ! i) - y (cs ! j)\<bar>)
      \<and> (\<forall>j \<in> set (candidates cs i l). nearest_ahead cs i l j \<longrightarrow> 150 \<le> y (cs ! i) - y (cs ! j))
      \<and> (\<forall>j \<in> set (candidates cs i l).
            y (cs ! i) < y (cs ! j) \<and> y (cs ! j) - y (cs ! i) < 100 \<longrightarrow> speed (cs ! j) \<le> speed (cs ! i)))"
proof -
  have sub: "\<not> (\<exists>j \<in> set (candidates cs i l). y (cs ! i) < y (cs ! j) \<and> y (cs ! j) - y (cs ! i) < 100
         \<and> speed (cs ! i) < speed (cs ! j))"
    if "\<forall>j \<in> set (candidates cs i l). 125 \<le> \<bar>y (cs ! i) - y (cs ! j)\<bar>"
    using that by fastforce
  have mem: "nearest_ahead cs i l j \<Longrightarrow> j \<in> set (candidates cs i l)" for j
    by (simp add: nearest_ahead_def)
  show ?thesis
    unfolding is_lane_safe_def blind_spot_iff rear_threat_iff forward_blocked_iff
    using sub mem by (auto simp: not_less not_le)
qed

text \<open>
  Claim C4. For every list of vehicles, evaluating vehicle \<open>i\<close> and candidate lane \<open>l\<close>,
  \<open>is_lane_safe\<close> returns true exactly when (1) every non-agent vehicle other than the
  evaluator in lane \<open>l\<close> is at absolute longitudinal distance at least 125, (2) every nearest
  non-agent vehicle ahead in lane \<open>l\<close> is at distance at least 150, and (3) no non-agent
  vehicle behind in lane \<open>l\<close> at distance below 100 is faster than the evaluator.
\<close>

theorem is_lane_safe_iff:
  "is_lane_safe cs i l =
     ((\<forall>j \<in> set (candidates cs i l). 125 \<le> \<bar>y (cs ! i) - y (cs ! j)\<bar>)
      \<and> (\<forall>j \<in> set (candidates cs i l). nearest_ahead cs i l j \<longrightarrow> 150 \<le> y (cs ! i) - y (cs ! j))
      \<and> (\<forall>j \<in> set (candidates cs i l).
            y (cs ! i) < y (cs ! j) \<and> y (cs ! j) - y (cs ! i) < 100 \<longrightarrow> speed (cs ! j) \<le> speed (cs ! i)))"
  by (rule lane_safe_char)

text \<open>In \<open>demo_cars\<close> lane 0 is safe for the agent and its own lane 1 is not.\<close>

theorem is_lane_safe_iff_witness: "is_lane_safe demo_cars 0 0 \<and> \<not> is_lane_safe demo_cars 0 1"
  using is_lane_safe_iff [of demo_cars 0 0] is_lane_safe_iff [of demo_cars 0 1]
  by (simp add: demo_cars_def Car_def candidates_def nearest_ahead_def upt_rec)

section \<open>Structure of a move\<close>

lemma list_update_self: "xs[i := a] = xs[i := xs[i := a] ! i]"
  by (cases "i < length xs") (simp_all add: not_less list_update_beyond)

lemma list_update_same_shape: "ys = xs[i := a] \<Longrightarrow> ys = xs[i := ys ! i]"
  using list_update_self [of xs i a] by simp

lemma autonomous_drive_cases:
  assumes "\<And>a. P (cs[i := a])"
  shows "P (autonomous_drive cs i fc)"
proof -
  let ?cs = "cs[i := adjust_speed (cs ! i)]"
  have e: "P ?cs" using assms .
  have b: "P (brake ?cs i f)" for f
    unfolding brake_def list_update_overwrite using assms by (cases "stuck_timer (?cs ! i) + 1 > 300") simp_all
  have c: "P (commit_change ?cs i bl)" for bl
    unfolding commit_change_def list_update_overwrite using assms .
  have a: "P (abort_change ?cs i)"
    unfolding abort_change_def list_update_overwrite using assms .
  have r: "P (clear_state ?cs i)"
    unfolding clear_state_def list_update_overwrite using assms e by (cases "changing_lane (?cs ! i)") simp_all
  have bl: "P (blocked_state ?cs i fc f)" for f
    unfolding blocked_state_def using b c by (simp split: list.split)
  show ?thesis
    unfolding autonomous_drive_def Let_def
    using a r bl by (simp split: prod.split option.split)
qed

lemma autonomous_drive_upd:
  "autonomous_drive cs i fc = cs[i := autonomous_drive cs i fc ! i]"
  by (rule autonomous_drive_cases) (rule list_update_self)

lemma length_autonomous_drive [simp]: "length (autonomous_drive cs i fc) = length cs"
  by (subst autonomous_drive_upd) simp

lemma autonomous_drive_other: "k \<noteq> i \<Longrightarrow> autonomous_drive cs i fc ! k = cs ! k"
  by (subst autonomous_drive_upd) simp

lemma move_upd: "move rnd cs fc p i = Some cs' \<Longrightarrow> cs' = cs[i := cs' ! i]"
proof -
  assume m: "move rnd cs fc p i = Some cs'"
  show ?thesis
  proof (cases "collided (cs ! i)")
    case True
    with m show ?thesis by (simp add: move_def)
  next
    case False
    let ?cs1 = "if is_player (cs ! i) then autonomous_drive cs i fc else cs"
    from m False obtain c3 where c3: "cs' = ?cs1[i := c3]"
      by (auto simp: move_def Let_def split: option.splits)
    have "?cs1 = cs[i := ?cs1 ! i]"
      using autonomous_drive_upd [of cs i fc] by simp
    then have "cs' = (cs[i := ?cs1 ! i])[i := c3]" using c3 by simp
    then have e: "cs' = cs[i := c3]" by simp
    then show ?thesis by (rule list_update_same_shape)
  qed
qed

lemma move_length: "move rnd cs fc p i = Some cs' \<Longrightarrow> length cs' = length cs"
proof -
  assume "move rnd cs fc p i = Some cs'"
  then have "cs' = cs[i := cs' ! i]" by (rule move_upd)
  then have "length cs' = length (cs[i := cs' ! i])" by simp
  then show ?thesis by simp
qed

lemma move_other: "move rnd cs fc p i = Some cs' \<Longrightarrow> k \<noteq> i \<Longrightarrow> cs' ! k = cs ! k"
proof -
  assume "move rnd cs fc p i = Some cs'" and k: "k \<noteq> i"
  then have "cs' = cs[i := cs' ! i]" by (simp add: move_upd)
  then have "cs' ! k = cs[i := cs' ! i] ! k" by simp
  with k show ?thesis by simp
qed

lemma move_collided: "collided (cs ! i) \<Longrightarrow> move rnd cs fc p i = Some cs"
  by (simp add: move_def)

lemma move_loop_length: "move_loop rnd fc p cs js = Some cs' \<Longrightarrow> length cs' = length cs"
proof (induction js arbitrary: cs)
  case Nil
  then show ?case by simp
next
  case (Cons j js)
  then show ?case by (auto split: option.splits dest: move_length)
qed

lemma move_loop_other:
  "move_loop rnd fc p cs js = Some cs' \<Longrightarrow> k \<notin> set js \<Longrightarrow> cs' ! k = cs ! k"
proof (induction js arbitrary: cs)
  case Nil
  then show ?case by simp
next
  case (Cons j js)
  from Cons.prems obtain mid where mid: "move rnd cs fc p j = Some mid"
      "move_loop rnd fc p mid js = Some cs'"
    by (auto split: option.splits)
  have "cs' ! k = mid ! k" using Cons.IH [OF mid(2)] Cons.prems(2) by simp
  also have "mid ! k = cs ! k" using move_other [OF mid(1)] Cons.prems(2) by simp
  finally show ?case .
qed

lemma move_loop_append:
  "move_loop rnd fc p cs (js @ ks) =
     (case move_loop rnd fc p cs js of None \<Rightarrow> None | Some mid \<Rightarrow> move_loop rnd fc p mid ks)"
  by (induction js arbitrary: cs) (auto split: option.splits)

lemma move_all_nth:
  assumes "move_all rnd fc p cs = Some cs'" "i < length cs"
  shows "\<exists>mid mid'. move_loop rnd fc p cs [0..<i] = Some mid \<and> length mid = length cs
           \<and> (\<forall>k. i \<le> k \<longrightarrow> mid ! k = cs ! k)
           \<and> move rnd mid fc p i = Some mid' \<and> cs' ! i = mid' ! i"
proof -
  have split: "[0..<length cs] = [0..<i] @ i # [Suc i..<length cs]"
    using assms(2) by (metis upt_conv_Cons upt_add_eq_append le_add_diff_inverse less_imp_le zero_le)
  from assms(1) obtain mid where mid: "move_loop rnd fc p cs [0..<i] = Some mid"
      "move_loop rnd fc p mid (i # [Suc i..<length cs]) = Some cs'"
    unfolding move_all_def split move_loop_append by (auto split: option.splits)
  from mid(2) obtain mid' where mid': "move rnd mid fc p i = Some mid'"
      "move_loop rnd fc p mid' [Suc i..<length cs] = Some cs'"
    by (auto split: option.splits)
  have "cs' ! i = mid' ! i" using move_loop_other [OF mid'(2), of i] by simp
  moreover have "\<forall>k. i \<le> k \<longrightarrow> mid ! k = cs ! k"
    using move_loop_other [OF mid(1)] by simp
  moreover have "length mid = length cs" using move_loop_length [OF mid(1)] .
  ultimately show ?thesis using mid(1) mid'(1) by blast
qed

lemma autonomous_drive_branches:
  assumes "P (abort_change (cs[i := adjust_speed (cs ! i)]) i)"
      and "\<And>f. P (brake (cs[i := adjust_speed (cs ! i)]) i f)"
      and "\<And>b. P (commit_change (cs[i := adjust_speed (cs ! i)]) i b)"
      and "P (clear_state (cs[i := adjust_speed (cs ! i)]) i)"
  shows "P (autonomous_drive cs i fc)"
proof -
  let ?cs = "cs[i := adjust_speed (cs ! i)]"
  have bl: "P (blocked_state ?cs i fc f)" for f
    unfolding blocked_state_def using assms(2,3) by (simp split: list.split)
  show ?thesis
    unfolding autonomous_drive_def Let_def
    using assms(1,4) bl by (simp split: prod.split option.split)
qed

lemma same_body_refl [simp]: "same_body c c"
  by (simp add: same_body_def)

lemma same_body_trans: "same_body a b \<Longrightarrow> same_body b c \<Longrightarrow> same_body a c"
  by (simp add: same_body_def)

lemma autonomous_drive_same_body: "same_body (cs ! i) (autonomous_drive cs i fc ! i)"
proof (cases "i < length cs")
  case True
  show ?thesis
  proof (rule autonomous_drive_branches)
    show "same_body (cs ! i) (abort_change (cs[i := adjust_speed (cs ! i)]) i ! i)"
      using True by (simp add: abort_change_def same_body_def adjust_speed_def)
    show "same_body (cs ! i) (brake (cs[i := adjust_speed (cs ! i)]) i f ! i)" for f
      using True by (simp add: brake_def same_body_def adjust_speed_def)
    show "same_body (cs ! i) (commit_change (cs[i := adjust_speed (cs ! i)]) i b ! i)" for b
      using True by (simp add: commit_change_def same_body_def adjust_speed_def)
    show "same_body (cs ! i) (clear_state (cs[i := adjust_speed (cs ! i)]) i ! i)"
      using True by (simp add: clear_state_def same_body_def adjust_speed_def)
  qed
next
  case False
  have "autonomous_drive cs i fc = cs"
    by (rule autonomous_drive_cases) (use False in \<open>simp add: not_less list_update_beyond\<close>)
  then show ?thesis by simp
qed

lemma relative_motion_same_body: "relative_motion r ps c = Some c' \<Longrightarrow> same_body c c'"
  by (auto simp: relative_motion_def Let_def same_body_def split: if_splits option.splits)

lemma lateral_same_body: "lateral fc c = Some c' \<Longrightarrow> same_body c c'"
  by (auto simp: lateral_def Let_def same_body_def split: if_splits option.splits)

lemma move_same_body:
  assumes "move rnd cs fc p i = Some cs'"
  shows "same_body (cs ! k) (cs' ! k)"
proof (cases "k = i \<and> i < length cs \<and> \<not> collided (cs ! i)")
  case False
  then consider "k \<noteq> i" | "k = i" "\<not> i < length cs" | "collided (cs ! i)" by blast
  then show ?thesis
  proof cases
    case 1
    then show ?thesis using move_other [OF assms] by simp
  next
    case 2
    have "cs' = cs[i := cs' ! i]" using assms by (rule move_upd)
    then have "cs' = cs" using 2 by (simp add: not_less list_update_beyond)
    then show ?thesis by simp
  next
    case 3
    then show ?thesis using assms by (simp add: move_def)
  qed
next
  case True
  let ?cs1 = "if is_player (cs ! i) then autonomous_drive cs i fc else cs"
  have a: "same_body (cs ! i) (?cs1 ! i)"
    by (simp add: autonomous_drive_same_body)
  from assms True obtain c2 c3 where
      c2: "(if \<not> is_player (?cs1 ! i) then relative_motion (rnd i) (speed (?cs1 ! p)) (?cs1 ! i)
            else Some (?cs1 ! i)) = Some c2"
      and c3: "lateral fc c2 = Some c3" and e: "cs' = ?cs1[i := c3]"
    by (auto simp: move_def Let_def split: option.splits)
  have b: "same_body (?cs1 ! i) c2"
    using c2 by (auto split: if_splits dest: relative_motion_same_body)
  have c: "same_body c2 c3" using c3 by (rule lateral_same_body)
  have "cs' ! i = c3" using e True by simp
  then show ?thesis using a b c True same_body_trans by metis
qed

lemma move_loop_same_body:
  "move_loop rnd fc p cs js = Some cs' \<Longrightarrow> same_body (cs ! k) (cs' ! k)"
proof (induction js arbitrary: cs)
  case Nil
  then show ?case by simp
next
  case (Cons j js)
  from Cons.prems obtain mid where mid: "move rnd cs fc p j = Some mid"
      "move_loop rnd fc p mid js = Some cs'"
    by (auto split: option.splits)
  show ?case
    using move_same_body [OF mid(1), of k] Cons.IH [OF mid(2)] same_body_trans by blast
qed

lemma move_loop_collided:
  "move_loop rnd fc p cs js = Some cs' \<Longrightarrow> collided (cs ! k) \<Longrightarrow> cs' ! k = cs ! k"
proof (induction js arbitrary: cs)
  case Nil
  then show ?case by simp
next
  case (Cons j js)
  from Cons.prems obtain mid where mid: "move rnd cs fc p j = Some mid"
      "move_loop rnd fc p mid js = Some cs'"
    by (auto split: option.splits)
  have "mid ! k = cs ! k"
  proof (cases "k = j")
    case True
    then show ?thesis using mid(1) Cons.prems(2) by (simp add: move_def)
  next
    case False
    then show ?thesis using move_other [OF mid(1)] by simp
  qed
  then show ?case using Cons.IH [OF mid(2)] Cons.prems(2) by simp
qed

section \<open>The collision check\<close>

lemma find_enumerate_Some:
  "find P (enumerate 0 cs) = Some jc \<longleftrightarrow>
     (fst jc < length cs \<and> snd jc = cs ! fst jc \<and> P jc \<and> (\<forall>k < fst jc. \<not> P (k, cs ! k)))"
proof
  assume "find P (enumerate 0 cs) = Some jc"
  then obtain n where n: "n < length (enumerate 0 cs)" "P (enumerate 0 cs ! n)"
      "jc = enumerate 0 cs ! n" "\<forall>m < n. \<not> P (enumerate 0 cs ! m)"
    unfolding find_Some_iff by blast
  from n(1) have ln: "n < length cs" by simp
  then have e: "enumerate 0 cs ! n = (n, cs ! n)" by (simp add: nth_enumerate_eq)
  have "\<forall>k < n. \<not> P (k, cs ! k)"
  proof (intro allI impI)
    fix k assume "k < n"
    then have "\<not> P (enumerate 0 cs ! k)" using n(4) by blast
    moreover have "enumerate 0 cs ! k = (k, cs ! k)"
      using \<open>k < n\<close> ln by (simp add: nth_enumerate_eq)
    ultimately show "\<not> P (k, cs ! k)" by simp
  qed
  then show "fst jc < length cs \<and> snd jc = cs ! fst jc \<and> P jc \<and> (\<forall>k < fst jc. \<not> P (k, cs ! k))"
    using n e ln by simp
next
  assume a: "fst jc < length cs \<and> snd jc = cs ! fst jc \<and> P jc \<and> (\<forall>k < fst jc. \<not> P (k, cs ! k))"
  then have e: "enumerate 0 cs ! fst jc = jc"
    by (simp add: nth_enumerate_eq prod_eq_iff)
  have "\<forall>m < fst jc. \<not> P (enumerate 0 cs ! m)"
    using a by (simp add: nth_enumerate_eq)
  then show "find P (enumerate 0 cs) = Some jc"
    unfolding find_Some_iff using a e by (intro exI [of _ "fst jc"]) simp
qed

lemma find_enumerate_None:
  "find P (enumerate 0 cs) = None \<longleftrightarrow> (\<forall>k < length cs. \<not> P (k, cs ! k))"
  unfolding find_None_iff by (auto simp: in_set_enumerate_eq)

lemma check_first_overlap:
  "find (\<lambda>jc. fst jc \<noteq> i \<and> ov (car_rect (cs ! i)) (car_rect (snd jc))) (enumerate 0 cs) = Some jc
   \<longleftrightarrow> (first_overlap ov cs i (fst jc) \<and> snd jc = cs ! fst jc)"
  unfolding find_enumerate_Some first_overlap_def overlaps_def by auto

lemma check_no_overlap:
  "find (\<lambda>jc. fst jc \<noteq> i \<and> ov (car_rect (cs ! i)) (car_rect (snd jc))) (enumerate 0 cs) = None
   \<longleftrightarrow> (\<forall>k. \<not> overlaps ov cs i k)"
  unfolding find_enumerate_None overlaps_def by auto

lemma check_collision_cases:
  "(update_sensors_and_check_collision ov cs i = cs \<and> (collided (cs ! i) \<or> (\<forall>k. \<not> overlaps ov cs i k)))
   \<or> (\<not> collided (cs ! i) \<and> (\<exists>j. first_overlap ov cs i j
         \<and> update_sensors_and_check_collision ov cs i
            = cs[i := (cs ! i)\<lparr>collided := True, lane_decision := ''CRASHED!''\<rparr>,
                 j := (cs ! j)\<lparr>collided := True\<rparr>]))"
proof (cases "collided (cs ! i)")
  case True
  then show ?thesis by (simp add: update_sensors_and_check_collision_def)
next
  case False
  show ?thesis
  proof (cases "find (\<lambda>jc. fst jc \<noteq> i \<and> ov (car_rect (cs ! i)) (car_rect (snd jc))) (enumerate 0 cs)")
    case None
    then show ?thesis
      using False check_no_overlap [of i ov cs]
      by (simp add: update_sensors_and_check_collision_def)
  next
    case (Some jc)
    then have "first_overlap ov cs i (fst jc)" "snd jc = cs ! fst jc"
      using check_first_overlap [of i ov cs jc] by simp_all
    then show ?thesis
      using False Some by (auto simp: update_sensors_and_check_collision_def)
  qed
qed

lemma check_collision_length [simp]:
  "length (update_sensors_and_check_collision ov cs i) = length cs"
  using check_collision_cases [of ov cs i] by auto

lemma check_collision_flagged:
  assumes "i < length cs" "\<not> collided (cs ! i)" "first_overlap ov cs i j"
  shows "collided (update_sensors_and_check_collision ov cs i ! i)
       \<and> collided (update_sensors_and_check_collision ov cs i ! j)"
proof -
  from check_collision_cases [of ov cs i] assms obtain j' where j': "first_overlap ov cs i j'"
      "update_sensors_and_check_collision ov cs i
            = cs[i := (cs ! i)\<lparr>collided := True, lane_decision := ''CRASHED!''\<rparr>,
                 j' := (cs ! j')\<lparr>collided := True\<rparr>]"
    by (auto simp: first_overlap_def)
  have "j' = j"
    using j'(1) assms(3) unfolding first_overlap_def by (meson linorder_neqE_nat)
  moreover have "j < length cs" "j \<noteq> i" using assms(3) by (simp_all add: first_overlap_def overlaps_def)
  ultimately show ?thesis using j'(2) assms(1) by simp
qed

lemma check_collision_frozen:
  assumes "k < length cs" "collided (cs ! k)"
  shows "update_sensors_and_check_collision ov cs i ! k = cs ! k"
proof -
  from check_collision_cases [of ov cs i]
  consider "update_sensors_and_check_collision ov cs i = cs"
    | j where "\<not> collided (cs ! i)" "first_overlap ov cs i j"
        "update_sensors_and_check_collision ov cs i
            = cs[i := (cs ! i)\<lparr>collided := True, lane_decision := ''CRASHED!''\<rparr>,
                 j := (cs ! j)\<lparr>collided := True\<rparr>]"
    by blast
  then show ?thesis
  proof cases
    case 1
    then show ?thesis by simp
  next
    case 2
    have ki: "k \<noteq> i" using 2(1) assms(2) by auto
    show ?thesis
    proof (cases "k = j")
      case True
      then show ?thesis using 2(3) assms ki by simp
    next
      case False
      then show ?thesis using 2(3) ki by simp
    qed
  qed
qed

lemma check_collision_rect:
  "car_rect (update_sensors_and_check_collision ov cs i ! k) = car_rect (cs ! k)"
proof -
  from check_collision_cases [of ov cs i]
  consider "update_sensors_and_check_collision ov cs i = cs"
    | j where "update_sensors_and_check_collision ov cs i
            = cs[i := (cs ! i)\<lparr>collided := True, lane_decision := ''CRASHED!''\<rparr>,
                 j := (cs ! j)\<lparr>collided := True\<rparr>]"
    by blast
  then show ?thesis
  proof cases
    case 1
    then show ?thesis by simp
  next
    case 2
    show ?thesis
      unfolding 2
      by (cases "k < length cs"; cases "k = j"; cases "k = i")
         (simp_all add: car_rect_def nth_list_update not_less list_update_beyond)
  qed
qed

lemma check_collision_new:
  assumes "k < length cs" "\<not> collided (cs ! k)"
      "collided (update_sensors_and_check_collision ov cs i ! k)"
  shows "\<not> collided (cs ! i) \<and> (\<exists>j. first_overlap ov cs i j \<and> (k = i \<or> k = j))"
proof -
  from check_collision_cases [of ov cs i] assms
  obtain j where j: "\<not> collided (cs ! i)" "first_overlap ov cs i j"
        "update_sensors_and_check_collision ov cs i
            = cs[i := (cs ! i)\<lparr>collided := True, lane_decision := ''CRASHED!''\<rparr>,
                 j := (cs ! j)\<lparr>collided := True\<rparr>]"
    by auto
  have "k = i \<or> k = j"
  proof (rule ccontr)
    assume "\<not> (k = i \<or> k = j)"
    then have "update_sensors_and_check_collision ov cs i ! k = cs ! k"
      unfolding j(3) by simp
    with assms show False by simp
  qed
  with j show ?thesis by blast
qed

section \<open>Collisions within a step\<close>

lemma step_SomeE:
  assumes "step ov rnd w = Some w'"
  obtains cs where "move_all rnd (frame_count w) (player_car w) (cars w) = Some cs"
    and "w' = w\<lparr>cars := update_sensors_and_check_collision ov cs (player_car w)\<rparr>"
    and "length cs = length (cars w)"
    and "\<forall>k. same_body (cars w ! k) (cs ! k)"
proof -
  from assms obtain cs where cs: "move_all rnd (frame_count w) (player_car w) (cars w) = Some cs"
      "w' = w\<lparr>cars := update_sensors_and_check_collision ov cs (player_car w)\<rparr>"
    by (auto simp: step_def split: option.splits)
  have "length cs = length (cars w)"
    using cs(1) unfolding move_all_def by (rule move_loop_length)
  moreover have "\<forall>k. same_body (cars w ! k) (cs ! k)"
    using cs(1) unfolding move_all_def by (simp add: move_loop_same_body)
  ultimately show ?thesis using cs that by blast
qed

lemma step_length: "step ov rnd w = Some w' \<Longrightarrow> length (cars w') = length (cars w)"
  by (erule step_SomeE) simp

lemma step_player_car: "step ov rnd w = Some w' \<Longrightarrow> player_car w' = player_car w"
  by (erule step_SomeE) simp

lemma step_frozen:
  assumes "step ov rnd w = Some w'" "i < length (cars w)" "collided (cars w ! i)"
  shows "cars w' ! i = cars w ! i"
proof -
  from assms(1) obtain cs where cs: "move_all rnd (frame_count w) (player_car w) (cars w) = Some cs"
      "w' = w\<lparr>cars := update_sensors_and_check_collision ov cs (player_car w)\<rparr>"
      "length cs = length (cars w)"
    by (rule step_SomeE)
  have m: "cs ! i = cars w ! i"
    using cs(1) assms(3) unfolding move_all_def by (rule move_loop_collided)
  show ?thesis
    using check_collision_frozen [of i cs ov "player_car w"] m cs(2,3) assms(2,3) by simp
qed

lemma tick_frozen:
  assumes "tick ov rnd w = Some w'" "i < length (cars w)" "collided (cars w ! i)"
  shows "cars w' ! i = cars w ! i"
  using step_frozen [of ov rnd _ w' i] assms by (simp add: tick_def)

lemma tick_length: "tick ov rnd w = Some w' \<Longrightarrow> length (cars w') = length (cars w)"
  using step_length [of ov rnd _ w'] by (simp add: tick_def)

lemma run_length: "run ov rs w = Some w' \<Longrightarrow> length (cars w') = length (cars w)"
proof (induction rs arbitrary: w)
  case Nil
  then show ?case by simp
next
  case (Cons r rs)
  from Cons.prems obtain w1 where w1: "tick ov r w = Some w1" "run ov rs w1 = Some w'"
    by (auto split: option.splits)
  show ?case using Cons.IH [OF w1(2)] tick_length [OF w1(1)] by simp
qed

lemma run_frozen:
  "run ov rs w = Some w' \<Longrightarrow> i < length (cars w) \<Longrightarrow> collided (cars w ! i)
   \<Longrightarrow> cars w' ! i = cars w ! i"
proof (induction rs arbitrary: w)
  case Nil
  then show ?case by simp
next
  case (Cons r rs)
  from Cons.prems obtain w1 where w1: "tick ov r w = Some w1" "run ov rs w1 = Some w'"
    by (auto split: option.splits)
  have a: "cars w1 ! i = cars w ! i" using tick_frozen [OF w1(1)] Cons.prems by simp
  have "cars w' ! i = cars w1 ! i"
    using Cons.IH [OF w1(2)] a tick_length [OF w1(1)] Cons.prems by simp
  with a show ?case by simp
qed

text \<open>
  Claim C8. A vehicle whose \<open>collided\<close> flag is set when a step starts comes out of the step
  with the same position (both coordinates), lane and speed; in fact none of its fields
  changes, so it is neither moved, nor recycled, nor given a new decision.
\<close>

theorem collided_vehicle_frozen:
  assumes "step ov rnd w = Some w'" "i < length (cars w)" "collided (cars w ! i)"
  shows "x (cars w' ! i) = x (cars w ! i) \<and> y (cars w' ! i) = y (cars w ! i)
       \<and> lane (cars w' ! i) = lane (cars w ! i) \<and> speed (cars w' ! i) = speed (cars w ! i)
       \<and> cars w' ! i = cars w ! i"
  using step_frozen [OF assms] by simp

text \<open>In \<open>crashed\<close> both vehicles are frozen: the step returns them unchanged.\<close>

theorem collided_vehicle_frozen_witness:
  "step colliderect no_draws crashed = Some crashed \<and> 1 < length (cars crashed)
   \<and> collided (cars crashed ! 1) \<and> y (cars crashed ! 1) = 660 \<and> speed (cars crashed ! 1) = 3"
proof -
  have s: "step colliderect no_draws crashed = Some crashed" by code_simp
  have l: "1 < length (cars crashed)" by code_simp
  have c: "collided (cars crashed ! 1)" by code_simp
  have "y (cars crashed ! 1) = 660" "speed (cars crashed ! 1) = 3" by code_simp+
  with collided_vehicle_frozen [OF s l c] s l c show ?thesis by simp
qed

text \<open>
  Claim C10. The collision check runs on the agent only. A vehicle whose \<open>collided\<close> flag is
  set during a step is the agent or a vehicle whose rectangle overlaps the agent's after the
  motion update, and in either case some vehicle overlaps the agent; so when no vehicle
  overlaps the agent no flag is set, whatever the non-player vehicles do to one another.
\<close>

theorem collided_only_with_agent:
  assumes "step ov rnd w = Some w'" "i < length (cars w)"
      "\<not> collided (cars w ! i)" "collided (cars w' ! i)"
  shows "(i = player_car w \<or> overlaps ov (cars w') (player_car w) i)
       \<and> (\<exists>j. overlaps ov (cars w') (player_car w) j)"
proof -
  let ?p = "player_car w"
  from assms(1) obtain cs where cs: "move_all rnd (frame_count w) ?p (cars w) = Some cs"
      "w' = w\<lparr>cars := update_sensors_and_check_collision ov cs ?p\<rparr>"
      "length cs = length (cars w)" "\<forall>k. same_body (cars w ! k) (cs ! k)"
    by (rule step_SomeE)
  have nc: "\<not> collided (cs ! i)" using cs(4) assms(3) by (simp add: same_body_def)
  have c': "collided (update_sensors_and_check_collision ov cs ?p ! i)"
    using assms(4) cs(2) by simp
  from check_collision_new [of i cs ov ?p] nc c' assms(2) cs(3)
  obtain j where j: "first_overlap ov cs ?p j" "i = ?p \<or> i = j" by auto
  have ov: "overlaps ov (cars w') ?p j"
    using j(1) cs(2) by (simp add: first_overlap_def overlaps_def check_collision_rect)
  then show ?thesis using j(2) by blast
qed

text \<open>
  One step after \<open>pileup\<close> the vehicle ahead has its flag set, and it overlaps the agent.
\<close>

theorem collided_only_with_agent_witness:
  "step colliderect no_draws pileup = Some pileup_after \<and> \<not> collided (cars pileup ! 1)
   \<and> collided (cars pileup_after ! 1) \<and> overlaps colliderect (cars pileup_after) 0 1"
proof -
  have s: "step colliderect no_draws pileup = Some pileup_after" by code_simp
  have l: "1 < length (cars pileup)" by code_simp
  have n: "\<not> collided (cars pileup ! 1)" by code_simp
  have c: "collided (cars pileup_after ! 1)" by code_simp
  have p: "player_car pileup = 0" by code_simp
  from collided_only_with_agent [OF s l n c] p
  have "overlaps colliderect (cars pileup_after) 0 1" by simp
  with s n c show ?thesis by simp
qed

text \<open>
  Claim C3, as the code has it. When the agent is not already marked collided and, after the
  motion update of a step, its rectangle overlaps other vehicles, the agent and the first
  overlapping vehicle in list order are both marked collided by that step (the scan stops
  there). A flag that is set stays set through any number of further ticks.
\<close>

theorem collision_marks_first_overlap:
  assumes "step ov rnd w = Some w'" "run ov rs w' = Some w''"
  shows "(player_car w < length (cars w) \<and> \<not> collided (cars w ! player_car w)
            \<and> first_overlap ov (cars w') (player_car w) j
          \<longrightarrow> collided (cars w' ! player_car w) \<and> collided (cars w' ! j))
       \<and> (\<forall>i < length (cars w'). collided (cars w' ! i) \<longrightarrow> collided (cars w'' ! i))"
proof -
  let ?p = "player_car w"
  from assms(1) obtain cs where cs: "move_all rnd (frame_count w) ?p (cars w) = Some cs"
      "w' = w\<lparr>cars := update_sensors_and_check_collision ov cs ?p\<rparr>"
      "length cs = length (cars w)" "\<forall>k. same_body (cars w ! k) (cs ! k)"
    by (rule step_SomeE)
  have a: "collided (cars w' ! ?p) \<and> collided (cars w' ! j)"
    if h: "?p < length (cars w)" "\<not> collided (cars w ! ?p)" "first_overlap ov (cars w') ?p j"
  proof -
    have nc: "\<not> collided (cs ! ?p)" using cs(4) h(2) by (simp add: same_body_def)
    have fo: "first_overlap ov cs ?p j"
      using h(3) cs(2) by (simp add: first_overlap_def overlaps_def check_collision_rect)
    show ?thesis
      using check_collision_flagged [of ?p cs ov j] nc fo h(1) cs(2,3) by simp
  qed
  have b: "collided (cars w'' ! i)" if "i < length (cars w')" "collided (cars w' ! i)" for i
    using run_frozen [OF assms(2) that] that(2) by simp
  show ?thesis using a b by blast
qed

text \<open>
  One step after \<open>pileup\<close> the agent and the vehicle ahead of it are marked, and remain so
  one tick later.
\<close>

theorem collision_marks_first_overlap_witness:
  "step colliderect no_draws pileup = Some pileup_after
   \<and> run colliderect [no_draws] pileup_after = Some pileup_later
   \<and> collided (cars pileup_after ! 0) \<and> collided (cars pileup_after ! 1)
   \<and> collided (cars pileup_later ! 0) \<and> collided (cars pileup_later ! 1)"
proof -
  have s: "step colliderect no_draws pileup = Some pileup_after" by code_simp
  have r: "run colliderect [no_draws] pileup_after = Some pileup_later" by code_simp
  have h: "player_car pileup < length (cars pileup) \<and> \<not> collided (cars pileup ! player_car pileup)
            \<and> first_overlap colliderect (cars pileup_after) (player_car pileup) 1" by code_simp
  have l: "0 < length (cars pileup_after)" "1 < length (cars pileup_after)" "player_car pileup = 0"
    by code_simp+
  from collision_marks_first_overlap [OF s r, of 1] h l
  have "collided (cars pileup_after ! 0) \<and> collided (cars pileup_after ! 1)
   \<and> collided (cars pileup_later ! 0) \<and> collided (cars pileup_later ! 1)"
    by (simp del: run.simps)
  with s r show ?thesis by (simp del: run.simps)
qed

text \<open>
  Claim C3 as stated fails: one step after \<open>pileup\<close> the rectangle of the vehicle behind
  overlaps the agent's as well, and that vehicle is not marked.
\<close>

theorem collision_second_overlap_unmarked:
  "step colliderect no_draws pileup = Some pileup_after
   \<and> overlaps colliderect (cars pileup_after) (player_car pileup) 2
   \<and> \<not> collided (cars pileup_after ! 2)"
  by code_simp

section \<open>The decision engine on the list it is given\<close>

lemma front_step_same_y: "y c = y c' \<Longrightarrow> front_step c i l = front_step c' i l"
  by (intro ext) (simp add: front_step_def)

lemma fold_update_skipped:
  "i < length xs \<Longrightarrow> f (xs ! i) = id \<Longrightarrow> f a = id \<Longrightarrow> fold f (xs[i := a]) = fold f xs"
proof (induction xs arbitrary: i)
  case Nil
  then show ?case by simp
next
  case (Cons z zs)
  then show ?case by (cases i) simp_all
qed

lemma enumerate_update: "enumerate n (xs[i := a]) = (enumerate n xs)[i := (n + i, a)]"
proof (induction xs arbitrary: n i)
  case Nil
  then show ?case by simp
next
  case (Cons z zs)
  then show ?case by (cases i) simp_all
qed

lemma front_step_skip_self: "front_step c i l (i, a) = id"
  by (intro ext) (simp add: front_step_def)

lemma get_car_in_front_update_self:
  assumes "i < length cs" "y c = y (cs ! i)"
  shows "get_car_in_front (cs[i := c]) i l = get_car_in_front cs i l"
proof -
  have e: "enumerate 0 cs ! i = (i, cs ! i)" using assms(1) by (simp add: nth_enumerate_eq)
  have "fold (front_step (cs ! i) i l) ((enumerate 0 cs)[i := (0 + i, c)])
        = fold (front_step (cs ! i) i l) (enumerate 0 cs)"
    by (rule fold_update_skipped) (use assms(1) e in \<open>simp_all add: front_step_skip_self\<close>)
  then show ?thesis
    unfolding get_car_in_front_def enumerate_update
    using assms front_step_same_y [of c "cs ! i" i l] by simp
qed

lemma candidates_update_self: "candidates (cs[i := c]) i l = candidates cs i l"
  unfolding candidates_def by (rule filter_cong) auto

lemma nearest_ahead_update_self:
  "i < length cs \<Longrightarrow> y c = y (cs ! i) \<Longrightarrow> nearest_ahead (cs[i := c]) i l j = nearest_ahead cs i l j"
  unfolding nearest_ahead_def candidates_update_self
  by (auto simp: candidates_def nth_list_update)

lemma lane_safe_char2:
  "is_lane_safe cs i l =
     ((\<forall>j \<in> set (candidates cs i l). 125 \<le> \<bar>y (cs ! i) - y (cs ! j)\<bar>)
      \<and> (\<forall>j \<in> set (candidates cs i l). nearest_ahead cs i l j \<longrightarrow> 150 \<le> y (cs ! i) - y (cs ! j)))"
  unfolding lane_safe_char by fastforce

lemma is_lane_safe_update_self:
  assumes "i < length cs" "y c = y (cs ! i)"
  shows "is_lane_safe (cs[i := c]) i l = is_lane_safe cs i l"
proof -
  have n: "cs[i := c] ! j = cs ! j" if "j \<in> set (candidates cs i l)" for j
    using that by (simp add: candidates_def)
  show ?thesis
    unfolding lane_safe_char2 candidates_update_self
    using assms n nearest_ahead_update_self [OF assms] by simp
qed

lemma safe_lanes_update_self:
  assumes "i < length cs" "y c = y (cs ! i)" "lane c = lane (cs ! i)"
  shows "safe_lanes (cs[i := c]) i = safe_lanes cs i"
  unfolding safe_lanes_def using assms
  by (simp add: possible_lanes_def is_lane_safe_update_self cong: filter_cong)

lemma adjust_speed_fields [simp]:
  "y (adjust_speed c) = y c" "x (adjust_speed c) = x c" "lane (adjust_speed c) = lane c"
  "changing_lane (adjust_speed c) = changing_lane c" "target_lane (adjust_speed c) = target_lane c"
  "stuck_timer (adjust_speed c) = stuck_timer c" "collided (adjust_speed c) = collided c"
  "is_player (adjust_speed c) = is_player c"
  "last_lane_change_time (adjust_speed c) = last_lane_change_time c"
  "min_lane_change_interval (adjust_speed c) = min_lane_change_interval c"
  "change_progress (adjust_speed c) = change_progress c"
  "target_speed (adjust_speed c) = target_speed c"
  by (simp_all add: adjust_speed_def)

lemma is_on_cooldown_adjust [simp]: "is_on_cooldown (adjust_speed c) fc = is_on_cooldown c fc"
  by (simp add: is_on_cooldown_def)

lemma blocked_state_view:
  assumes "i < length cs"
  shows "blocked_state (cs[i := adjust_speed (cs ! i)]) i fc f =
     (if \<not> is_on_cooldown (cs ! i) fc
      then (case safe_lanes cs i of
              [] \<Rightarrow> brake (cs[i := adjust_speed (cs ! i)]) i f
            | z # zs \<Rightarrow> commit_change (cs[i := adjust_speed (cs ! i)]) i (max_key (ahead_dist cs i) z zs))
      else brake (cs[i := adjust_speed (cs ! i)]) i f)"
proof -
  have k: "(\<lambda>l. snd (get_car_in_front (cs[i := adjust_speed (cs ! i)]) i l)) = ahead_dist cs i"
    using assms by (intro ext) (simp add: ahead_dist_def get_car_in_front_update_self)
  show ?thesis
    unfolding blocked_state_def k
    using assms by (simp add: safe_lanes_update_self)
qed

lemma autonomous_drive_view:
  assumes "i < length cs"
  shows "autonomous_drive cs i fc =
     (if changing_lane (cs ! i) \<and> \<not> is_lane_safe cs i (target_lane (cs ! i))
      then abort_change (cs[i := adjust_speed (cs ! i)]) i
      else
        (case get_car_in_front cs i (lane (cs ! i)) of
           (None, front_dist) \<Rightarrow> clear_state (cs[i := adjust_speed (cs ! i)]) i
         | (Some front_car, front_dist) \<Rightarrow>
             if \<not> changing_lane (cs ! i) \<and> dist_less front_dist (Finite CHANGE_LANE_DISTANCE)
             then blocked_state (cs[i := adjust_speed (cs ! i)]) i fc front_car
             else clear_state (cs[i := adjust_speed (cs ! i)]) i))"
  unfolding autonomous_drive_def Let_def
  using assms
  by (simp add: get_car_in_front_update_self is_lane_safe_update_self
           split: prod.splits option.splits)

lemma drive_blocked:
  assumes "i < length cs" "blocked_by cs i f"
  shows "autonomous_drive cs i fc = blocked_state (cs[i := adjust_speed (cs ! i)]) i fc f"
proof -
  obtain d where d: "get_car_in_front cs i (lane (cs ! i)) = (Some f, d)"
      "dist_less d (Finite CHANGE_LANE_DISTANCE)" "\<not> changing_lane (cs ! i)"
    using assms(2) by (cases "get_car_in_front cs i (lane (cs ! i))") (simp add: blocked_by_def)
  show ?thesis
    unfolding autonomous_drive_view [OF assms(1)] using d by simp
qed


lemma drive_commit:
  assumes "i < length cs" "blocked_by cs i f" "\<not> is_on_cooldown (cs ! i) fc" "safe_lanes cs i = z # zs"
  shows "autonomous_drive cs i fc =
           commit_change (cs[i := adjust_speed (cs ! i)]) i (max_key (ahead_dist cs i) z zs)"
  unfolding drive_blocked [OF assms(1,2)] blocked_state_view [OF assms(1)]
  using assms(3,4) by simp


lemma set_safe_lanes: "l \<in> set (safe_lanes cs i) = safe_adjacent cs i l"
  by (auto simp: safe_lanes_def possible_lanes_def safe_adjacent_def LANE_COUNT_def)

lemma sorted_safe_lanes: "sorted (safe_lanes cs i)"
  unfolding safe_lanes_def by (rule sorted_wrt_filter) (auto simp: possible_lanes_def)

lemma dist_less_trans: "dist_less a b \<Longrightarrow> dist_less b c \<Longrightarrow> dist_less a c"
  by (cases a; cases b; cases c) auto

lemma dist_less_le_trans: "dist_less a b \<Longrightarrow> \<not> dist_less c b \<Longrightarrow> dist_less a c"
  by (cases a; cases b; cases c) auto

lemma dist_le_less_trans: "\<not> dist_less b a \<Longrightarrow> dist_less b c \<Longrightarrow> dist_less a c"
  by (cases a; cases b; cases c) auto

lemma dist_less_irrefl: "\<not> dist_less a a"
  by (cases a) auto

lemma max_key_mem: "max_key k b zs \<in> set (b # zs)"
  by (induction zs arbitrary: b) auto

lemma max_key_ge_start: "\<not> dist_less (k (max_key k b zs)) (k b)"
proof (induction zs arbitrary: b)
  case Nil
  then show ?case by (simp add: dist_less_irrefl)
next
  case (Cons z zs)
  show ?case
  proof (cases "dist_less (k b) (k z)")
    case True
    have "\<not> dist_less (k (max_key k z zs)) (k z)" by (rule Cons.IH)
    with True have "\<not> dist_less (k (max_key k z zs)) (k b)"
      using dist_less_trans by blast
    with True show ?thesis by simp
  next
    case False
    then show ?thesis using Cons.IH [of b] by simp
  qed
qed

lemma max_key_max: "u \<in> set (b # zs) \<Longrightarrow> \<not> dist_less (k (max_key k b zs)) (k u)"
proof (induction zs arbitrary: b)
  case Nil
  then show ?case by (simp add: dist_less_irrefl)
next
  case (Cons z zs)
  let ?b' = "if dist_less (k b) (k z) then z else b"
  have m: "max_key k b (z # zs) = max_key k ?b' zs" by simp
  have ge: "\<not> dist_less (k (max_key k ?b' zs)) (k ?b')" by (rule max_key_ge_start)
  consider "u \<in> set (?b' # zs)" | "u = b" "dist_less (k b) (k z)" | "u = z" "\<not> dist_less (k b) (k z)"
    using Cons.prems by (cases "dist_less (k b) (k z)") auto
  then show ?case
  proof cases
    case 1
    then show ?thesis unfolding m by (rule Cons.IH)
  next
    case 2
    show ?thesis
    proof
      assume "dist_less (k (max_key k b (z # zs))) (k u)"
      then have "dist_less (k (max_key k z zs)) (k b)" using 2 by simp
      then have "dist_less (k (max_key k z zs)) (k z)" using 2(2) dist_less_trans by blast
      then show False using ge 2(2) by simp
    qed
  next
    case 3
    show ?thesis
    proof
      assume "dist_less (k (max_key k b (z # zs))) (k u)"
      then have "dist_less (k (max_key k b zs)) (k z)" using 3 by simp
      then have "dist_less (k (max_key k b zs)) (k b)" using 3(2) dist_less_le_trans by blast
      then show False using ge 3(2) by simp
    qed
  qed
qed

lemma max_key_first:
  "sorted (b # zs) \<Longrightarrow> u \<in> set (b # zs) \<Longrightarrow> k u = k (max_key k b zs) \<Longrightarrow> max_key k b zs \<le> (u::nat)"
proof (induction zs arbitrary: b u)
  case Nil
  then show ?case by simp
next
  case (Cons z zs)
  let ?b' = "if dist_less (k b) (k z) then z else b"
  have m: "max_key k b (z # zs) = max_key k ?b' zs" by simp
  have s: "sorted (?b' # zs)" using Cons.prems(1) by auto
  have ge: "\<not> dist_less (k (max_key k ?b' zs)) (k ?b')" by (rule max_key_ge_start)
  have ku: "k u = k (max_key k ?b' zs)" using Cons.prems(3) by simp
  consider "u \<in> set (?b' # zs)" | "u = b" "dist_less (k b) (k z)" | "u = z" "\<not> dist_less (k b) (k z)"
    using Cons.prems(2) by (cases "dist_less (k b) (k z)") auto
  then show ?case
  proof cases
    case 1
    then show ?thesis unfolding m using Cons.IH [OF s _ ku] by simp
  next
    case 2
    then have "dist_less (k (max_key k ?b' zs)) (k z)" using ku by simp
    then have False using ge 2(2) by simp
    then show ?thesis ..
  next
    case 3
    have "\<not> dist_less (k b) (k (max_key k b zs))" using 3 ku by simp
    moreover have "\<not> dist_less (k (max_key k b zs)) (k b)" using ge 3(2) by simp
    ultimately have "k b = k (max_key k b zs)"
      by (cases "k b"; cases "k (max_key k b zs)") auto
    then have "max_key k b zs \<le> b" using Cons.IH [of b b] s 3(2) by simp
    moreover have "b \<le> z" using Cons.prems(1) by simp
    ultimately show ?thesis using 3 by simp
  qed
qed

lemma commit_char:
  assumes "i < length cs" "blocked_by cs i f" "\<not> is_on_cooldown (cs ! i) fc" "safe_adjacent cs i l0"
  shows "\<exists>best. safe_adjacent cs i best
           \<and> (\<forall>l. safe_adjacent cs i l \<longrightarrow> \<not> dist_less (ahead_dist cs i best) (ahead_dist cs i l))
           \<and> (\<forall>l. safe_adjacent cs i l \<and> ahead_dist cs i l = ahead_dist cs i best \<longrightarrow> best \<le> l)
           \<and> autonomous_drive cs i fc =
               cs[i := (adjust_speed (cs ! i))
                         \<lparr>lane_decision := ''Changing to Lane '' @ str_nat (best + 1),
                          changing_lane := True,
                          target_lane := best,
                          target_speed := PLAYER_SPEED_MAX,
                          stuck_timer := 0\<rparr>]"
proof -
  from assms(4) have "l0 \<in> set (safe_lanes cs i)" by (simp add: set_safe_lanes)
  then obtain z zs where zs: "safe_lanes cs i = z # zs" by (cases "safe_lanes cs i") auto
  let ?best = "max_key (ahead_dist cs i) z zs"
  have srt: "sorted (z # zs)" using sorted_safe_lanes [of cs i] zs by simp
  have mem: "l \<in> set (z # zs) = safe_adjacent cs i l" for l
    using set_safe_lanes [of l cs i] zs by simp
  have a: "safe_adjacent cs i ?best" using max_key_mem [of "ahead_dist cs i" z zs] mem by blast
  have b: "\<not> dist_less (ahead_dist cs i ?best) (ahead_dist cs i l)" if "safe_adjacent cs i l" for l
    using max_key_max [of l z zs "ahead_dist cs i"] mem that by blast
  have c: "?best \<le> l" if "safe_adjacent cs i l" "ahead_dist cs i l = ahead_dist cs i ?best" for l
    using max_key_first [OF srt, of l "ahead_dist cs i"] mem that by blast
  have d: "autonomous_drive cs i fc =
               cs[i := (adjust_speed (cs ! i))
                         \<lparr>lane_decision := ''Changing to Lane '' @ str_nat (?best + 1),
                          changing_lane := True,
                          target_lane := ?best,
                          target_speed := PLAYER_SPEED_MAX,
                          stuck_timer := 0\<rparr>]"
    unfolding drive_commit [OF assms(1,2,3) zs] commit_change_def using assms(1) by simp
  show ?thesis using a b c d by blast
qed

lemma no_car_ahead_inf:
  "(\<forall>j \<in> set (candidates cs i l). \<not> y (cs ! j) < y (cs ! i)) \<Longrightarrow> get_car_in_front cs i l = (None, PosInf)"
  by (rule get_car_in_front_none) (simp add: ahead_candidates)


text \<open>
  Claim C6. When vehicle \<open>i\<close> is blocked, not on cooldown, and some adjacent lane passes the
  lane safety evaluator, \<open>autonomous_drive\<close> commits to a safe adjacent lane \<open>best\<close> whose
  nearest-ahead distance no safe adjacent lane exceeds, and which is the lowest lane index
  among those of equal distance. The result is the speed-adjusted vehicle with
  \<open>changing_lane\<close> set, \<open>target_lane = best\<close>, the target speed at the cruising maximum and
  \<open>stuck_timer\<close> reset; nothing else is changed by the decision.
\<close>

theorem commit_to_best_safe_lane:
  assumes "i < length cs" "blocked_by cs i f" "\<not> is_on_cooldown (cs ! i) fc" "safe_adjacent cs i l0"
  shows "\<exists>best. safe_adjacent cs i best
           \<and> (\<forall>l. safe_adjacent cs i l \<longrightarrow> \<not> dist_less (ahead_dist cs i best) (ahead_dist cs i l))
           \<and> (\<forall>l. safe_adjacent cs i l \<and> ahead_dist cs i l = ahead_dist cs i best \<longrightarrow> best \<le> l)
           \<and> autonomous_drive cs i fc =
               cs[i := (adjust_speed (cs ! i))
                         \<lparr>lane_decision := ''Changing to Lane '' @ str_nat (best + 1),
                          changing_lane := True,
                          target_lane := best,
                          target_speed := PLAYER_SPEED_MAX,
                          stuck_timer := 0\<rparr>]"
  using assms by (rule commit_char)

text \<open>
  In \<open>demo_cars\<close> at frame 100 the agent is blocked behind vehicle 1, lane 0 is safe, and the
  agent commits to a lane change.
\<close>

theorem commit_to_best_safe_lane_witness:
  "0 < length demo_cars \<and> blocked_by demo_cars 0 1 \<and> \<not> is_on_cooldown (demo_cars ! 0) 100
   \<and> safe_adjacent demo_cars 0 0
   \<and> changing_lane (autonomous_drive demo_cars 0 100 ! 0)
   \<and> target_speed (autonomous_drive demo_cars 0 100 ! 0) = 5
   \<and> stuck_timer (autonomous_drive demo_cars 0 100 ! 0) = 0"
proof -
  have h: "0 < length demo_cars" "blocked_by demo_cars 0 1" "\<not> is_on_cooldown (demo_cars ! 0) 100"
      "safe_adjacent demo_cars 0 0" by code_simp+
  from commit_to_best_safe_lane [OF h] obtain best where
    "autonomous_drive demo_cars 0 100 =
               demo_cars[0 := (adjust_speed (demo_cars ! 0))
                         \<lparr>lane_decision := ''Changing to Lane '' @ str_nat (best + 1),
                          changing_lane := True,
                          target_lane := best,
                          target_speed := PLAYER_SPEED_MAX,
                          stuck_timer := 0\<rparr>]" by blast
  then have "changing_lane (autonomous_drive demo_cars 0 100 ! 0)
   \<and> target_speed (autonomous_drive demo_cars 0 100 ! 0) = 5
   \<and> stuck_timer (autonomous_drive demo_cars 0 100 ! 0) = 0"
    using h(1) by (simp add: PLAYER_SPEED_MAX_def)
  with h show ?thesis by simp
qed

text \<open>
  Claim C9. When no non-agent vehicle is ahead of vehicle \<open>i\<close> in lane \<open>l\<close>,
  \<open>get_car_in_front\<close> returns no vehicle and the infinite distance. Consequently, when the
  blocked vehicle may change lane and such a lane \<open>l\<close> is a safe adjacent lane, the lane it
  commits to has the infinite distance too: a lane with a finite nearest-ahead distance is
  never chosen over it.
\<close>

theorem open_lane_preferred:
  "((\<forall>j \<in> set (candidates cs i l). \<not> y (cs ! j) < y (cs ! i))
      \<longrightarrow> get_car_in_front cs i l = (None, PosInf))
   \<and> (i < length cs \<and> blocked_by cs i f \<and> \<not> is_on_cooldown (cs ! i) fc \<and> safe_adjacent cs i l
        \<and> (\<forall>j \<in> set (candidates cs i l). \<not> y (cs ! j) < y (cs ! i))
      \<longrightarrow> changing_lane (autonomous_drive cs i fc ! i)
          \<and> safe_adjacent cs i (target_lane (autonomous_drive cs i fc ! i))
          \<and> ahead_dist cs i (target_lane (autonomous_drive cs i fc ! i)) = PosInf
          \<and> (\<forall>l' d. ahead_dist cs i l' = Finite d \<longrightarrow> target_lane (autonomous_drive cs i fc ! i) \<noteq> l'))"
proof (intro conjI impI)
  assume "\<forall>j \<in> set (candidates cs i l). \<not> y (cs ! j) < y (cs ! i)"
  then show "get_car_in_front cs i l = (None, PosInf)" by (rule no_car_ahead_inf)
next
  assume h: "i < length cs \<and> blocked_by cs i f \<and> \<not> is_on_cooldown (cs ! i) fc \<and> safe_adjacent cs i l
        \<and> (\<forall>j \<in> set (candidates cs i l). \<not> y (cs ! j) < y (cs ! i))"
  then have inf: "ahead_dist cs i l = PosInf"
    by (simp add: ahead_dist_def no_car_ahead_inf)
  from h commit_char [of i cs f fc l] obtain best where best: "safe_adjacent cs i best"
      "\<forall>l. safe_adjacent cs i l \<longrightarrow> \<not> dist_less (ahead_dist cs i best) (ahead_dist cs i l)"
      "autonomous_drive cs i fc =
               cs[i := (adjust_speed (cs ! i))
                         \<lparr>lane_decision := ''Changing to Lane '' @ str_nat (best + 1),
                          changing_lane := True,
                          target_lane := best,
                          target_speed := PLAYER_SPEED_MAX,
                          stuck_timer := 0\<rparr>]"
    by blast
  have t: "target_lane (autonomous_drive cs i fc ! i) = best"
    and c: "changing_lane (autonomous_drive cs i fc ! i)"
    unfolding best(3) using h by simp_all
  have "\<not> dist_less (ahead_dist cs i best) PosInf" using best(2) h inf by metis
  then have bi: "ahead_dist cs i best = PosInf" by (cases "ahead_dist cs i best") auto
  show "changing_lane (autonomous_drive cs i fc ! i)" by (rule c)
  show "safe_adjacent cs i (target_lane (autonomous_drive cs i fc ! i))" using t best(1) by simp
  show "ahead_dist cs i (target_lane (autonomous_drive cs i fc ! i)) = PosInf" using t bi by simp
  show "\<forall>l' d. ahead_dist cs i l' = Finite d \<longrightarrow> target_lane (autonomous_drive cs i fc ! i) \<noteq> l'"
    using t bi by auto
qed

text \<open>
  In \<open>demo_cars\<close> lane 2 is empty and lane 0 has a vehicle 300 ahead; both are safe, and the
  agent commits to lane 2.
\<close>

theorem open_lane_preferred_witness:
  "get_car_in_front demo_cars 0 2 = (None, PosInf)
   \<and> safe_adjacent demo_cars 0 0 \<and> ahead_dist demo_cars 0 0 = Finite 300
   \<and> target_lane (autonomous_drive demo_cars 0 100 ! 0) \<noteq> 0"
proof -
  have h: "0 < length demo_cars \<and> blocked_by demo_cars 0 1 \<and> \<not> is_on_cooldown (demo_cars ! 0) 100
      \<and> safe_adjacent demo_cars 0 2
      \<and> (\<forall>j \<in> set (candidates demo_cars 0 2). \<not> y (demo_cars ! j) < y (demo_cars ! 0))"
    by code_simp
  have a: "safe_adjacent demo_cars 0 0" "ahead_dist demo_cars 0 0 = Finite 300" by code_simp+
  from open_lane_preferred [of demo_cars 0 2 1 100] h a show ?thesis by blast
qed

section \<open>The agent within a step\<close>




lemma check_collision_fields:
  "changing_lane (update_sensors_and_check_collision ov cs p ! k) = changing_lane (cs ! k)
   \<and> stuck_timer (update_sensors_and_check_collision ov cs p ! k) = stuck_timer (cs ! k)
   \<and> target_speed (update_sensors_and_check_collision ov cs p ! k) = target_speed (cs ! k)
   \<and> target_lane (update_sensors_and_check_collision ov cs p ! k) = target_lane (cs ! k)
   \<and> change_progress (update_sensors_and_check_collision ov cs p ! k) = change_progress (cs ! k)
   \<and> speed (update_sensors_and_check_collision ov cs p ! k) = speed (cs ! k)
   \<and> lane (update_sensors_and_check_collision ov cs p ! k) = lane (cs ! k)
   \<and> is_player (update_sensors_and_check_collision ov cs p ! k) = is_player (cs ! k)
   \<and> min_lane_change_interval (update_sensors_and_check_collision ov cs p ! k)
       = min_lane_change_interval (cs ! k)
   \<and> last_lane_change_time (update_sensors_and_check_collision ov cs p ! k)
       = last_lane_change_time (cs ! k)"
proof -
  from check_collision_cases [of ov cs p]
  consider "update_sensors_and_check_collision ov cs p = cs"
    | j where "update_sensors_and_check_collision ov cs p
            = cs[p := (cs ! p)\<lparr>collided := True, lane_decision := ''CRASHED!''\<rparr>,
                 j := (cs ! j)\<lparr>collided := True\<rparr>]"
    by blast
  then show ?thesis
  proof cases
    case 1
    then show ?thesis by simp
  next
    case 2
    show ?thesis
      unfolding 2
      by (cases "k < length cs"; cases "k = j"; cases "k = p")
         (simp_all add: nth_list_update not_less list_update_beyond)
  qed
qed





lemma cannot_change_iff:
  "cannot_change cs i fc = (is_on_cooldown (cs ! i) fc \<or> (\<forall>l. \<not> safe_adjacent cs i l))"
proof -
  have "(safe_lanes cs i = []) = (\<forall>l. l \<notin> set (safe_lanes cs i))"
    by (cases "safe_lanes cs i") auto
  then show ?thesis by (simp add: cannot_change_def set_safe_lanes)
qed







section \<open>Order of the moves within a step\<close>

lemma move_npc_indep:
  assumes "\<not> is_player (a ! j)" "j < length a" "j < length b" "b ! j = a ! j"
      "speed (b ! p) = speed (a ! p)" "move rnd a fc p j = Some a'"
  shows "\<exists>b'. move rnd b fc p j = Some b' \<and> b' ! j = a' ! j"
proof (cases "collided (a ! j)")
  case True
  then show ?thesis using assms by (simp add: move_def)
next
  case False
  from assms(1,6) False obtain c2 c3 where
      c: "relative_motion (rnd j) (speed (a ! p)) (a ! j) = Some c2" "lateral fc c2 = Some c3"
      "a' = a[j := c3]"
    by (auto simp: move_def Let_def split: option.splits)
  have "move rnd b fc p j = Some (b[j := c3])"
    using assms(1,4,5) False c(1,2) by (simp add: move_def Let_def)
  then show ?thesis using c(3) assms(2,3) by simp
qed

lemma step_order:
  assumes "step ov rnd w = Some w'" "player_car w = 0" "cars w \<noteq> []"
  shows "\<exists>cs1 cs. move rnd (cars w) (frame_count w) 0 0 = Some cs1
          \<and> cs ! 0 = cs1 ! 0 \<and> length cs = length (cars w)
          \<and> cars w' = update_sensors_and_check_collision ov cs 0
          \<and> (\<forall>j. 0 < j \<and> j < length (cars w) \<and> \<not> is_player (cars w ! j)
                \<longrightarrow> (\<exists>csj. move rnd cs1 (frame_count w) 0 j = Some csj \<and> cs ! j = csj ! j))"
proof -
  let ?fc = "frame_count w"
  have l: "0 < length (cars w)" using assms(3) by simp
  from assms(1) obtain cs where cs: "move_all rnd ?fc (player_car w) (cars w) = Some cs"
      "w' = w\<lparr>cars := update_sensors_and_check_collision ov cs (player_car w)\<rparr>"
      "length cs = length (cars w)"
    by (rule step_SomeE)
  have ml: "move_all rnd ?fc 0 (cars w) = Some cs" using cs(1) assms(2) by simp
  from move_all_nth [OF ml l] obtain cs1 where
      cs1: "move rnd (cars w) ?fc 0 0 = Some cs1" "cs ! 0 = cs1 ! 0"
    by auto
  have len1: "length cs1 = length (cars w)" using cs1(1) by (rule move_length)
  have npc: "\<exists>csj. move rnd cs1 ?fc 0 j = Some csj \<and> cs ! j = csj ! j"
    if j: "0 < j" "j < length (cars w)" "\<not> is_player (cars w ! j)" for j
  proof -
    from move_all_nth [OF ml j(2)] obtain mid mid' where
        m: "move_loop rnd ?fc 0 (cars w) [0..<j] = Some mid" "length mid = length (cars w)"
        "\<forall>k. j \<le> k \<longrightarrow> mid ! k = cars w ! k" "move rnd mid ?fc 0 j = Some mid'"
        "cs ! j = mid' ! j"
      by blast
    have "[0..<j] = 0 # [1..<j]" using j(1) by (simp add: upt_conv_Cons)
    then have tl: "move_loop rnd ?fc 0 cs1 [1..<j] = Some mid" using m(1) cs1(1) by simp
    have m0: "mid ! 0 = cs1 ! 0" using move_loop_other [OF tl, of 0] by simp
    have mj: "mid ! j = cars w ! j" using m(3) by simp
    have cj: "cs1 ! j = cars w ! j" using move_other [OF cs1(1), of j] j(1) by simp
    from move_npc_indep [of mid j cs1 0 rnd ?fc mid'] m(2,4) mj cj m0 j len1
    obtain csj where "move rnd cs1 ?fc 0 j = Some csj" "csj ! j = mid' ! j" by auto
    then show ?thesis using m(5) by auto
  qed
  show ?thesis using cs1 cs(2,3) assms(2) npc by auto
qed

text \<open>
  Claim C2, as the code has it. The agent is the first vehicle of the list, and within a
  step it moves first: its decision and its own motion are computed by \<open>move\<close> on the list as
  the step received it, in which no non-player vehicle has been repositioned yet. Each
  non-player vehicle then takes the state that \<open>move\<close> gives it on the list in which only the
  agent has moved (so it is repositioned relative to the agent's updated speed), and the
  collision check runs on the result.
\<close>

theorem agent_decides_before_traffic_moves:
  assumes "step ov rnd w = Some w'" "player_car w = 0" "cars w \<noteq> []"
  shows "\<exists>cs1 cs. move rnd (cars w) (frame_count w) 0 0 = Some cs1
          \<and> cs ! 0 = cs1 ! 0 \<and> length cs = length (cars w)
          \<and> cars w' = update_sensors_and_check_collision ov cs 0
          \<and> (\<forall>j. 0 < j \<and> j < length (cars w) \<and> \<not> is_player (cars w ! j)
                \<longrightarrow> (\<exists>csj. move rnd cs1 (frame_count w) 0 j = Some csj \<and> cs ! j = csj ! j))"
  using assms by (rule step_order)

text \<open>
  For \<open>gap\<close> the step leaves the agent with the decision it takes on the old positions.
\<close>

theorem agent_decides_before_traffic_moves_witness:
  "step colliderect no_draws gap = Some gap_after \<and> player_car gap = 0 \<and> cars gap \<noteq> []
   \<and> move no_draws (cars gap) (frame_count gap) 0 0
       = Some ((cars gap)[0 := (Car 500 700 1 5 True)\<lparr>lane_decision := ''Road clear''\<rparr>])
   \<and> lane_decision (cars gap_after ! 0) = ''Road clear''"
proof -
  have h: "step colliderect no_draws gap = Some gap_after" "player_car gap = 0" "cars gap \<noteq> []"
    by code_simp+
  have m: "move no_draws (cars gap) (frame_count gap) 0 0
       = Some ((cars gap)[0 := (Car 500 700 1 5 True)\<lparr>lane_decision := ''Road clear''\<rparr>])"
    by code_simp
  from agent_decides_before_traffic_moves [OF h] obtain cs1 cs where
      c: "move no_draws (cars gap) (frame_count gap) 0 0 = Some cs1" "cs ! 0 = cs1 ! 0"
      "length cs = length (cars gap)"
      "cars gap_after = update_sensors_and_check_collision colliderect cs 0"
    by blast
  have "lane_decision (cs1 ! 0) = ''Road clear''" using c(1) m h(3) by auto
  moreover have "\<not> collided (cars gap_after ! 0)" by code_simp
  ultimately have "lane_decision (cars gap_after ! 0) = ''Road clear''"
    using c(2,3,4) h(3) check_collision_cases [of colliderect cs 0]
    by (auto simp: first_overlap_def overlaps_def)
  with h m show ?thesis by simp
qed

text \<open>
  Claim C2 as stated fails. One step takes \<open>gap\<close> to \<open>gap_after\<close>, where the agent has
  decided that the road is clear: it saw the vehicle ahead at 150.5. Had the non-player
  vehicles moved first, as in \<open>step_spec_order\<close>, the agent would have seen it at 148.5 and
  braked.
\<close>

theorem agent_sees_old_positions:
  "step colliderect no_draws gap = Some gap_after
   \<and> step_spec_order colliderect no_draws gap = Some gap_spec_order
   \<and> lane_decision (cars gap_after ! 0) = ''Road clear''
   \<and> target_speed (cars gap_after ! 0) = 5
   \<and> lane_decision (cars gap_spec_order ! 0) = ''Slowing: No safe lane''
   \<and> target_speed (cars gap_spec_order ! 0) = 29 / 10"
  by code_simp

section \<open>Lane-change progress\<close>

text \<open>
  Claim C1 fails on the code. Two ticks from \<open>merge_start\<close>, where the agent is not changing
  lane and its progress is 0: the first tick commits to lane 0 and advances the progress to
  0.05, the second finds lane 0 unsafe and aborts. The abort clears \<open>changing_lane\<close> but
  leaves \<open>change_progress\<close> at 0.05.
\<close>

theorem abort_keeps_change_progress:
  "\<not> changing_lane (cars merge_start ! 0) \<and> change_progress (cars merge_start ! 0) = 0
   \<and> run colliderect [no_draws, no_draws] merge_start = Some merge_aborted
   \<and> lane_decision (cars merge_aborted ! 0) = ''Target Unsafe! Aborting.''
   \<and> \<not> changing_lane (cars merge_aborted ! 0)
   \<and> change_progress (cars merge_aborted ! 0) = 1 / 20"
  by code_simp

section \<open>Well-formed worlds and totality\<close>

lemma lane_center_Some: "l < LANE_COUNT \<Longrightarrow> \<exists>v. lane_center l = Some v"
  by (simp add: lane_center_def LANE_CENTERS_def)

lemma lateral_total:
  assumes "car_ok c"
  shows "\<exists>c'. lateral fc c = Some c' \<and> car_ok c'"
proof -
  obtain a b where ab: "lane_center (lane c) = Some a" "lane_center (target_lane c) = Some b"
    using assms lane_center_Some unfolding car_ok_def by blast
  show ?thesis
    using assms ab by (auto simp: lateral_def Let_def car_ok_def)
qed

lemma relative_motion_total:
  assumes "car_ok c" "fst r < LANE_COUNT"
  shows "\<exists>c'. relative_motion r ps c = Some c' \<and> car_ok c'"
proof -
  obtain a where "lane_center (fst r) = Some a" using assms(2) lane_center_Some by blast
  then show ?thesis using assms by (auto simp: relative_motion_def Let_def car_ok_def)
qed

lemma drive_ok:
  assumes "i < length cs" "car_ok (cs ! i)"
  shows "car_ok (autonomous_drive cs i fc ! i)"
proof -
  let ?cs1 = "cs[i := adjust_speed (cs ! i)]"
  have a: "car_ok (abort_change ?cs1 i ! i)"
    using assms by (simp add: abort_change_def car_ok_def)
  have c: "car_ok (clear_state ?cs1 i ! i)"
    using assms by (simp add: clear_state_def car_ok_def)
  have b: "car_ok (brake ?cs1 i f ! i)" if "\<not> changing_lane (cs ! i)" for f
    using assms that by (simp add: brake_def car_ok_def)
  have k: "car_ok (commit_change ?cs1 i (max_key (ahead_dist cs i) z zs) ! i)"
    if "safe_lanes cs i = z # zs" for z zs
  proof -
    have "max_key (ahead_dist cs i) z zs \<in> set (safe_lanes cs i)"
      using max_key_mem [of "ahead_dist cs i" z zs] that by simp
    then have "safe_adjacent cs i (max_key (ahead_dist cs i) z zs)" by (simp add: set_safe_lanes)
    then have "max_key (ahead_dist cs i) z zs < LANE_COUNT"
      using assms(2) by (auto simp: safe_adjacent_def car_ok_def)
    then show ?thesis using assms by (simp add: commit_change_def car_ok_def)
  qed
  have bl: "car_ok (blocked_state ?cs1 i fc f ! i)" if "\<not> changing_lane (cs ! i)" for f
    unfolding blocked_state_view [OF assms(1)] using b [OF that] k by (simp split: list.split)
  show ?thesis
    unfolding autonomous_drive_view [OF assms(1)] using a c bl
    by (simp split: prod.split option.split)
qed

lemma move_total:
  assumes "i < length cs" "car_ok (cs ! i)" "fst (rnd i) < LANE_COUNT"
  shows "\<exists>cs'. move rnd cs fc p i = Some cs' \<and> car_ok (cs' ! i)"
proof (cases "collided (cs ! i)")
  case True
  then show ?thesis using assms(2) by (simp add: move_def)
next
  case False
  let ?cs1 = "if is_player (cs ! i) then autonomous_drive cs i fc else cs"
  have ok1: "car_ok (?cs1 ! i)" using assms(1,2) by (simp add: drive_ok)
  have "\<exists>c2. (if \<not> is_player (?cs1 ! i)
               then relative_motion (rnd i) (speed (?cs1 ! p)) (?cs1 ! i)
               else Some (?cs1 ! i)) = Some c2 \<and> car_ok c2"
    using ok1 relative_motion_total [OF ok1 assms(3)] by (cases "is_player (?cs1 ! i)") auto
  then obtain c2 where c2: "(if \<not> is_player (?cs1 ! i)
               then relative_motion (rnd i) (speed (?cs1 ! p)) (?cs1 ! i)
               else Some (?cs1 ! i)) = Some c2" "car_ok c2"
    by blast
  from lateral_total [OF c2(2)] obtain c3 where c3: "lateral fc c2 = Some c3" "car_ok c3" by blast
  have "move rnd cs fc p i = Some (?cs1[i := c3])"
    using False c2(1) c3(1) by (simp add: move_def Let_def)
  moreover have "?cs1[i := c3] ! i = c3" using assms(1) by simp
  ultimately show ?thesis using c3(2) by metis
qed

lemma move_loop_total:
  assumes "\<forall>k < length cs. car_ok (cs ! k)" "rnd_ok rnd" "\<forall>j \<in> set js. j < length cs"
  shows "\<exists>cs'. move_loop rnd fc p cs js = Some cs' \<and> (\<forall>k < length cs'. car_ok (cs' ! k))"
  using assms
proof (induction js arbitrary: cs)
  case Nil
  then show ?case by simp
next
  case (Cons j js)
  have j: "j < length cs" "car_ok (cs ! j)" "fst (rnd j) < LANE_COUNT"
    using Cons.prems by (simp_all add: rnd_ok_def)
  from move_total [of j cs rnd fc p] j obtain mid where mid: "move rnd cs fc p j = Some mid" "car_ok (mid ! j)"
    by blast
  have len: "length mid = length cs" using mid(1) by (rule move_length)
  have ok: "\<forall>k < length mid. car_ok (mid ! k)"
  proof (intro allI impI)
    fix k assume "k < length mid"
    then show "car_ok (mid ! k)"
      using mid(2) move_other [OF mid(1), of k] Cons.prems(1) len by (cases "k = j") simp_all
  qed
  have "\<forall>j \<in> set js. j < length mid" using Cons.prems(3) len by simp
  from Cons.IH [OF ok Cons.prems(2) this] mid(1) show ?case by simp
qed

lemma step_total:
  assumes "world_inv w" "rnd_ok rnd"
  shows "\<exists>w'. step ov rnd w = Some w' \<and> world_inv w'"
proof -
  have ok: "\<forall>k < length (cars w). car_ok (cars w ! k)" using assms(1) by (simp add: world_inv_def)
  from move_loop_total [OF ok assms(2), of "[0..<length (cars w)]" "frame_count w" "player_car w"]
  obtain cs where cs: "move_all rnd (frame_count w) (player_car w) (cars w) = Some cs"
      "\<forall>k < length cs. car_ok (cs ! k)"
    unfolding move_all_def by auto
  let ?w' = "w\<lparr>cars := update_sensors_and_check_collision ov cs (player_car w)\<rparr>"
  have s: "step ov rnd w = Some ?w'" using cs(1) by (simp add: step_def)
  have len: "length cs = length (cars w)"
    using cs(1) unfolding move_all_def by (rule move_loop_length)
  have pl: "is_player (cs ! k) = is_player (cars w ! k)" for k
    using move_loop_same_body [of rnd "frame_count w" "player_car w" "cars w" _ cs k] cs(1)
    unfolding move_all_def by (simp add: same_body_def)
  let ?u = "update_sensors_and_check_collision ov cs (player_car w)"
  have lu: "length ?u = length (cars w)" using len by simp
  have ne: "?u \<noteq> []"
  proof
    assume "?u = []"
    then have "length ?u = 0" by simp
    with lu assms(1) show False by (simp add: world_inv_def)
  qed
  have each: "is_player (?u ! k) = (k = 0) \<and> car_ok (?u ! k)" if "k < length ?u" for k
    using that lu len pl [of k] cs(2) assms(1) check_collision_fields [of ov cs "player_car w" k]
    by (simp add: world_inv_def car_ok_def)
  have "world_inv ?w'"
    unfolding world_inv_def using assms(1) ne each by (simp add: world_inv_def)
  with s show ?thesis by blast
qed

lemma tick_total:
  assumes "world_inv w" "rnd_ok rnd"
  shows "\<exists>w'. tick ov rnd w = Some w' \<and> world_inv w'"
proof -
  have "world_inv (w\<lparr>frame_count := frame_count w + 1,
                   distance := distance w + speed (cars w ! player_car w)\<rparr>)"
    using assms(1) by (simp add: world_inv_def)
  from step_total [OF this assms(2)] show ?thesis by (simp add: tick_def)
qed

lemma spawn_total:
  assumes "\<forall>k \<in> set ks. fst (d k) < LANE_COUNT"
  shows "\<exists>cs. spawn d ks = Some cs \<and> length cs = length ks
            \<and> (\<forall>c \<in> set cs. \<not> is_player c \<and> car_ok c)"
  using assms
proof (induction ks)
  case Nil
  then show ?case by simp
next
  case (Cons k ks)
  obtain v where v: "lane_center (fst (d k)) = Some v"
    using Cons.prems lane_center_Some by auto
  from Cons obtain cs where cs: "spawn d ks = Some cs" "length cs = length ks"
      "\<forall>c \<in> set cs. \<not> is_player c \<and> car_ok c"
    by auto
  show ?case using v cs Cons.prems by (simp add: Car_def car_ok_def)
qed

lemma reset_simulation_total:
  assumes "\<forall>k < 12. fst (d k) < LANE_COUNT"
  shows "\<exists>w. reset_simulation d = Some w \<and> world_inv w \<and> length (cars w) = 13 \<and> frame_count w = 0"
proof -
  obtain v where v: "lane_center 1 = Some v"
    using lane_center_Some [of 1] by (auto simp: LANE_COUNT_def)
  have "\<forall>k \<in> set [0..<12]. fst (d k) < LANE_COUNT" using assms by simp
  from spawn_total [OF this] obtain npcs where n: "spawn d [0..<12] = Some npcs"
      "length npcs = 12" "\<forall>c \<in> set npcs. \<not> is_player c \<and> car_ok c"
    by auto
  let ?w = "\<lparr> cars = Car v (real_of_int HEIGHT - 100) 1 PLAYER_SPEED_MIN True # npcs,
              player_car = 0, distance = 0, frame_count = 0 \<rparr>"
  have r: "reset_simulation d = Some ?w" using v n(1) by (simp add: reset_simulation_def)
  have "world_inv ?w"
    unfolding world_inv_def using n(3)
    by (auto simp: nth_Cons Car_def car_ok_def LANE_COUNT_def split: nat.splits)
  with r n(2) show ?thesis by simp
qed

lemma main_loop_body_total:
  assumes "world_inv w" "rnd_ok rnd" "\<forall>k < 12. fst (d k) < LANE_COUNT"
  shows "\<exists>w'. main_loop_body ov rnd d w = Some w' \<and> world_inv w'"
  using tick_total [OF assms(1,2)] reset_simulation_total [OF assms(3)]
  by (auto simp: main_loop_body_def)

lemma reachable_world_inv: "reachable ov w \<Longrightarrow> world_inv w"
proof (induction rule: reachable.induct)
  case (start d w)
  then show ?case using reset_simulation_total [of d] by auto
next
  case (loop w rnd d w')
  then show ?case using main_loop_body_total [of w rnd d ov] by auto
qed

lemma reachable_progress:
  assumes "reachable ov w" "k < length (cars w)"
  shows "0 \<le> change_progress (cars w ! k) \<and> change_progress (cars w ! k) < 1"
  using reachable_world_inv [OF assms(1)] assms(2) by (simp add: world_inv_def car_ok_def)

end
